theory Spec2Isabelle
  imports Main "HOL-Library.Word"
begin

unbundle bit_operations_syntax

section \<open>SHA-256 (hashlib.sha256, FIPS 180-4)\<close>

text \<open>
  The anonymizer replaces values by \<^verbatim>\<open>hashlib.sha256(...).hexdigest()\<close>. The hash is
  written out here after FIPS 180-4 so that digests can be computed inside the logic.
  A 32-bit word is an \<open>int\<close> in \<open>[0, 2^32)\<close>; every addition is reduced modulo \<open>2^32\<close>.
  The round constants (first 32 bits of the fractional parts of the cube roots of the first
  64 primes) and the initial hash value are given in decimal.
\<close>

definition rotr :: "nat \<Rightarrow> int \<Rightarrow> int" where
  "rotr n x = x div 2 ^ n + (x mod 2 ^ n) * 2 ^ (32 - n)"

definition add32 :: "int \<Rightarrow> int \<Rightarrow> int" where
  "add32 x y = (x + y) mod 4294967296"

definition not32 :: "int \<Rightarrow> int" where
  "not32 x = 4294967295 - x"

definition ch :: "int \<Rightarrow> int \<Rightarrow> int \<Rightarrow> int" where
  "ch x y z = (x AND y) XOR (not32 x AND z)"

definition maj :: "int \<Rightarrow> int \<Rightarrow> int \<Rightarrow> int" where
  "maj x y z = (x AND y) XOR (x AND z) XOR (y AND z)"

definition bsig0 :: "int \<Rightarrow> int" where
  "bsig0 x = rotr 2 x XOR rotr 13 x XOR rotr 22 x"

definition bsig1 :: "int \<Rightarrow> int" where
  "bsig1 x = rotr 6 x XOR rotr 11 x XOR rotr 25 x"

definition ssig0 :: "int \<Rightarrow> int" where
  "ssig0 x = rotr 7 x XOR rotr 18 x XOR x div 2 ^ 3"

definition ssig1 :: "int \<Rightarrow> int" where
  "ssig1 x = rotr 17 x XOR rotr 19 x XOR x div 2 ^ 10"

definition K256 :: "int list" where
  "K256 =
    [1116352408, 1899447441, 3049323471, 3921009573, 961987163, 1508970993,
     2453635748, 2870763221, 3624381080, 310598401, 607225278, 1426881987,
     1925078388, 2162078206, 2614888103, 3248222580, 3835390401, 4022224774,
     264347078, 604807628, 770255983, 1249150122, 1555081692, 1996064986,
     2554220882, 2821834349, 2952996808, 3210313671, 3336571891, 3584528711,
     113926993, 338241895, 666307205, 773529912, 1294757372, 1396182291,
     1695183700, 1986661051, 2177026350, 2456956037, 2730485921, 2820302411,
     3259730800, 3345764771, 3516065817, 3600352804, 4094571909, 275423344,
     430227734, 506948616, 659060556, 883997877, 958139571, 1322822218,
     1537002063, 1747873779, 1955562222, 2024104815, 2227730452, 2361852424,
     2428436474, 2756734187, 3204031479, 3329325298]"

definition H256 :: "int list" where
  "H256 =
    [1779033703, 3144134277, 1013904242, 2773480762,
     1359893119, 2600822924, 528734635, 1541459225]"

text \<open>
  Message schedule: \<open>w\<close> is the window of the last sixteen words, oldest first; each step
  appends \<open>ssig1 (W (t-2)) + W (t-7) + ssig0 (W (t-15)) + W (t-16)\<close>.
\<close>

fun schedule :: "nat \<Rightarrow> int list \<Rightarrow> int list" where
  "schedule 0 w = []"
| "schedule (Suc n) w =
     (let x = add32 (add32 (ssig1 (w ! 14)) (w ! 9)) (add32 (ssig0 (w ! 1)) (w ! 0))
      in x # schedule n (tl w @ [x]))"

fun rounds :: "int list \<Rightarrow> int list \<Rightarrow> int list \<Rightarrow> int list" where
  "rounds [a, b, c, d, e, f, g, h] (k # ks) (w # ws) =
     (let t1 = add32 (add32 (add32 h (bsig1 e)) (add32 (ch e f g) k)) w;
          t2 = add32 (bsig0 a) (maj a b c)
      in rounds [add32 t1 t2, a, b, c, add32 d t1, e, f, g] ks ws)"
| "rounds s _ _ = s"

definition compress :: "int list \<Rightarrow> int list \<Rightarrow> int list" where
  "compress hs m = map2 add32 hs (rounds hs K256 (m @ schedule 48 m))"

fun be32 :: "int list \<Rightarrow> int list" where
  "be32 (a # b # c # d # r) = (((a * 256 + b) * 256 + c) * 256 + d) # be32 r"
| "be32 _ = []"

fun chunks :: "int list \<Rightarrow> int list list" where
  "chunks [] = []"
| "chunks ws = take 16 ws # chunks (drop 16 ws)"

fun be_bytes :: "nat \<Rightarrow> int \<Rightarrow> int list" where
  "be_bytes 0 x = []"
| "be_bytes (Suc n) x = be_bytes n (x div 256) @ [x mod 256]"

text \<open>Padding: the byte 0x80, zeros up to 56 modulo 64, the bit length on eight bytes.\<close>

definition pad :: "int list \<Rightarrow> int list" where
  "pad bs =
     bs @ [128] @ replicate ((119 - length bs mod 64) mod 64) 0 @ be_bytes 8 (8 * int (length bs))"

definition hexdigit :: "int \<Rightarrow> char" where
  "hexdigit d = ''0123456789abcdef'' ! nat d"

fun hex :: "nat \<Rightarrow> int \<Rightarrow> string" where
  "hex 0 x = []"
| "hex (Suc n) x = hex n (x div 16) @ [hexdigit (x mod 16)]"

definition sha256_words :: "int list \<Rightarrow> int list" where
  "sha256_words bs = foldl compress H256 (chunks (be32 (pad bs)))"

text \<open>
  \<^verbatim>\<open>hashlib.sha256(b).hexdigest()\<close>. A Python \<^verbatim>\<open>str\<close> is carried as the bytes of its UTF-8
  encoding, one \<open>char\<close> per byte, so \<^verbatim>\<open>s.encode('utf-8')\<close> is the string itself. (A string
  with a lone surrogate has no UTF-8 encoding and is outside this type.)
\<close>

definition sha256_hex :: "string \<Rightarrow> string" where
  "sha256_hex s = concat (map (hex 8) (sha256_words (map of_char s)))"


section \<open>JSON values and Python's \<^verbatim>\<open>str\<close>\<close>

text \<open>
  What \<^verbatim>\<open>json.loads\<close> returns: \<^verbatim>\<open>None\<close>, \<^verbatim>\<open>bool\<close>, \<^verbatim>\<open>int\<close>, \<^verbatim>\<open>float\<close>, \<^verbatim>\<open>str\<close>,
  \<^verbatim>\<open>list\<close> and \<^verbatim>\<open>dict\<close> with string keys. A float is its IEEE 754 binary64 bit pattern.
  A dict is the list of its items in insertion order; Python keeps its keys distinct.
\<close>

type_synonym pyfloat = "64 word"

datatype json =
    JNull
  | JBool bool
  | JInt int
  | JFloat pyfloat
  | JStr string
  | JArr "json list"
  | JObj "(string \<times> json) list"

type_synonym pydict = "(string \<times> json) list"

text \<open>The mapping table \<^verbatim>\<open>mapping: Dict[str, str]\<close>: digest to original, in insertion order.\<close>

type_synonym mapping = "(string \<times> json) list"

text \<open>What \<^verbatim>\<open>save_mapping\<close> hands to \<^verbatim>\<open>json.dump\<close>; the reverse mapping is keyed by originals.\<close>

record mapping_data =
  hash_to_original :: mapping
  original_to_hash :: "(json \<times> string) list"
  total_mappings :: nat

text \<open>
  The functions of the Python runtime and of its \<^verbatim>\<open>json\<close> module that the program calls and
  that are not part of the repository. They are parameters of the model:
  \<^item> \<open>float_repr\<close>: \<^verbatim>\<open>repr\<close> of a float; \<open>str_repr\<close>: \<^verbatim>\<open>repr\<close> of a \<^verbatim>\<open>str\<close> (quotes and escapes);
  \<^item> \<open>loads\<close>: \<^verbatim>\<open>json.loads\<close> and \<^verbatim>\<open>json.load\<close>, \<open>None\<close> for a \<^verbatim>\<open>JSONDecodeError\<close>;
  \<^item> \<open>dumps\<close>: \<^verbatim>\<open>json.dumps(x)\<close>; \<open>dump_indent\<close>: \<^verbatim>\<open>json.dump(x, f, indent=2, ensure_ascii=False)\<close>
    on an anonymized document, \<open>dump_mapping_data\<close>: the same call on the mapping document;
  \<^item> \<open>readlines\<close>: the lines a text file yields when iterated; \<open>strip\<close>: \<^verbatim>\<open>str.strip\<close>.
\<close>

record pylib =
  float_repr :: "pyfloat \<Rightarrow> string"
  str_repr :: "string \<Rightarrow> string"
  loads :: "string \<Rightarrow> json option"
  dumps :: "json \<Rightarrow> string"
  dump_indent :: "json \<Rightarrow> string"
  dump_mapping_data :: "mapping_data \<Rightarrow> string"
  readlines :: "string \<Rightarrow> string list"
  strip :: "string \<Rightarrow> string"

function str_digits :: "int \<Rightarrow> string" where
  "str_digits n =
     (if n < 10 then [''0123456789'' ! nat n] else str_digits (n div 10) @ [''0123456789'' ! nat (n mod 10)])"
  by pat_completeness auto
termination
  by (relation "measure nat") auto

definition str_int :: "int \<Rightarrow> string" where
  "str_int i = (if i < 0 then ''-'' @ str_digits (- i) else str_digits i)"

fun join :: "string \<Rightarrow> string list \<Rightarrow> string" where
  "join sep [] = []"
| "join sep [x] = x"
| "join sep (x # y # ys) = x @ sep @ join sep (y # ys)"

text \<open>\<^verbatim>\<open>repr(value)\<close>, which \<^verbatim>\<open>str\<close> of a list or dict applies to the elements.\<close>

fun py_repr :: "pylib \<Rightarrow> json \<Rightarrow> string" where
  "py_repr L JNull = ''None''"
| "py_repr L (JBool b) = (if b then ''True'' else ''False'')"
| "py_repr L (JInt i) = str_int i"
| "py_repr L (JFloat x) = float_repr L x"
| "py_repr L (JStr s) = str_repr L s"
| "py_repr L (JArr xs) = ''['' @ join '', '' (map (py_repr L) xs) @ '']''"
| "py_repr L (JObj kvs) =
     ''{'' @ join '', '' (map (\<lambda>(k, v). str_repr L k @ '': '' @ py_repr L v) kvs) @ ''}''"

text \<open>\<^verbatim>\<open>str(value)\<close>: a string is itself, anything else is its \<^verbatim>\<open>repr\<close>.\<close>

fun py_str :: "pylib \<Rightarrow> json \<Rightarrow> string" where
  "py_str L (JStr s) = s"
| "py_str L v = py_repr L v"


section \<open>The anonymizer\<close>

definition FIELDS_TO_ANONYMIZE :: "string list" where
  "FIELDS_TO_ANONYMIZE = [''PatientIDx'', ''PatientID'', ''TreatmentName'', ''FirstName'', ''LastName'']"

fun is_None :: "json \<Rightarrow> bool" where
  "is_None JNull = True"
| "is_None _ = False"

text \<open>\<^verbatim>\<open>isinstance(x, dict)\<close>, \<^verbatim>\<open>isinstance(x, list)\<close> and \<^verbatim>\<open>isinstance(x, str)\<close>.\<close>

fun is_dict :: "json \<Rightarrow> bool" where
  "is_dict (JObj _) = True"
| "is_dict _ = False"

fun is_list :: "json \<Rightarrow> bool" where
  "is_list (JArr _) = True"
| "is_list _ = False"

fun is_str :: "json \<Rightarrow> bool" where
  "is_str (JStr _) = True"
| "is_str _ = False"

text \<open>\<^verbatim>\<open>list(x.keys())\<close> of a dict; a value that is not a dict has none.\<close>

fun dict_keys :: "json \<Rightarrow> string list" where
  "dict_keys (JObj kvs) = map fst kvs"
| "dict_keys _ = []"

text \<open>
  \<^verbatim>\<open>hashlib.sha256(str(value).encode('utf-8')).hexdigest() if value is not None else None\<close>
\<close>

definition hash_value :: "pylib \<Rightarrow> json \<Rightarrow> string option" where
  "hash_value L v = (if \<not> is_None v then Some (sha256_hex (py_str L v)) else None)"

text \<open>\<^verbatim>\<open>d[k] = v\<close> on a dict: an existing key keeps its place, a new one goes last.\<close>

definition dict_set :: "pydict \<Rightarrow> string \<Rightarrow> json \<Rightarrow> pydict" where
  "dict_set d k v =
     (if k \<in> fst ` set d then map (\<lambda>(k', v'). if k' = k then (k', v) else (k', v')) d
      else d @ [(k, v)])"

text \<open>
  \<^verbatim>\<open>anonymize_dict(data, mapping, fields)\<close>. The Python mutates \<^verbatim>\<open>mapping\<close> in place; here
  the mapping is passed in and returned with the result. \<open>anonymize_loop\<close> is the
  \<^verbatim>\<open>for key, value in data.items()\<close> loop with the dict \<^verbatim>\<open>anonymized\<close> built so far, and
  \<open>anonymize_items\<close> is the list comprehension over an array. The branch \<open>None\<close> of
  \<open>hash_value\<close> is \<^verbatim>\<open>anonymized[key] = None\<close>; the guard \<^verbatim>\<open>value is not None\<close> excludes it.
\<close>

function (sequential)
    anonymize_dict :: "pylib \<Rightarrow> json \<Rightarrow> mapping \<Rightarrow> string set \<Rightarrow> json \<times> mapping"
and anonymize_loop :: "pylib \<Rightarrow> pydict \<Rightarrow> mapping \<Rightarrow> string set \<Rightarrow> pydict \<Rightarrow> pydict \<times> mapping"
and anonymize_items :: "pylib \<Rightarrow> json list \<Rightarrow> mapping \<Rightarrow> string set \<Rightarrow> json list \<times> mapping"
where
  "anonymize_dict L (JObj kvs) m F =
     (case anonymize_loop L kvs m F [] of (anonymized, m') \<Rightarrow> (JObj anonymized, m'))"
| "anonymize_dict L data m F = (data, m)"
| "anonymize_loop L [] m F anonymized = (anonymized, m)"
| "anonymize_loop L ((key, val) # rest) m F anonymized =
     (if key \<in> F \<and> \<not> is_None val then
        (case hash_value L val of
           Some hashed_value \<Rightarrow>
             anonymize_loop L rest
               (if map_of m hashed_value = None then m @ [(hashed_value, val)] else m) F
               (dict_set anonymized key (JStr hashed_value))
         | None \<Rightarrow> anonymize_loop L rest m F (dict_set anonymized key JNull))
      else
        (case val of
           JObj _ \<Rightarrow>
             (case anonymize_dict L val m F of (val', m') \<Rightarrow>
                anonymize_loop L rest m' F (dict_set anonymized key val'))
         | JArr items \<Rightarrow>
             (case anonymize_items L items m F of (items', m') \<Rightarrow>
                anonymize_loop L rest m' F (dict_set anonymized key (JArr items')))
         | _ \<Rightarrow> anonymize_loop L rest m F (dict_set anonymized key val)))"
| "anonymize_items L [] m F = ([], m)"
| "anonymize_items L (item # rest) m F =
     (case (case item of JObj _ \<Rightarrow> anonymize_dict L item m F | _ \<Rightarrow> (item, m)) of
        (item', m') \<Rightarrow>
          (case anonymize_items L rest m' F of (rest', m'') \<Rightarrow> (item' # rest', m'')))"
  by pat_completeness auto
termination
  by (relation "measure (\<lambda>x. case x of
        Inl (L, j, m, F) \<Rightarrow> size j
      | Inr (Inl (L, kvs, m, F, acc)) \<Rightarrow> size_list (size_prod (\<lambda>_. 0) size) kvs
      | Inr (Inr (L, xs, m, F)) \<Rightarrow> size_list size xs)") auto


section \<open>The anonymizer as the specification words it\<close>

text \<open>
  The contract of the recursive anonymizer, written from the specification: a pure
  transform of the document, and the mapping table filled by insert-if-absent with the
  sensitive originals in the order the walk meets them.
\<close>

function (sequential)
    spec_anonymize :: "pylib \<Rightarrow> string set \<Rightarrow> json \<Rightarrow> json"
and spec_field :: "pylib \<Rightarrow> string set \<Rightarrow> string \<Rightarrow> json \<Rightarrow> json"
and spec_item :: "pylib \<Rightarrow> string set \<Rightarrow> json \<Rightarrow> json"
where
  "spec_anonymize L F (JObj kvs) = JObj (map (\<lambda>(k, v). (k, spec_field L F k v)) kvs)"
| "spec_anonymize L F data = data"
| "spec_field L F k v =
     (if k \<in> F \<and> \<not> is_None v then JStr (sha256_hex (py_str L v))
      else (case v of
              JObj _ \<Rightarrow> spec_anonymize L F v
            | JArr xs \<Rightarrow> JArr (map (spec_item L F) xs)
            | _ \<Rightarrow> v))"
| "spec_item L F (JObj kvs) = spec_anonymize L F (JObj kvs)"
| "spec_item L F x = x"
  by pat_completeness auto
termination
  by (relation "measure (\<lambda>x. case x of
        Inl (L, F, j) \<Rightarrow> 2 * size j
      | Inr (Inl (L, F, k, v)) \<Rightarrow> 2 * size v + 1
      | Inr (Inr (L, F, x)) \<Rightarrow> 2 * size x + 1)")
      (auto dest!: size_list_estimation'[where f = size, OF _ order_refl]
        size_list_estimation'[where f = "size_prod (\<lambda>_. 0) size", OF _ order_refl])

function (sequential)
    sensitive_values :: "string set \<Rightarrow> json \<Rightarrow> json list"
and sensitive_field :: "string set \<Rightarrow> string \<Rightarrow> json \<Rightarrow> json list"
and sensitive_item :: "string set \<Rightarrow> json \<Rightarrow> json list"
where
  "sensitive_values F (JObj kvs) = concat (map (\<lambda>(k, v). sensitive_field F k v) kvs)"
| "sensitive_values F data = []"
| "sensitive_field F k v =
     (if k \<in> F \<and> \<not> is_None v then [v]
      else (case v of
              JObj _ \<Rightarrow> sensitive_values F v
            | JArr xs \<Rightarrow> concat (map (sensitive_item F) xs)
            | _ \<Rightarrow> []))"
| "sensitive_item F (JObj kvs) = sensitive_values F (JObj kvs)"
| "sensitive_item F x = []"
  by pat_completeness auto
termination
  by (relation "measure (\<lambda>x. case x of
        Inl (F, j) \<Rightarrow> 2 * size j
      | Inr (Inl (F, k, v)) \<Rightarrow> 2 * size v + 1
      | Inr (Inr (F, x)) \<Rightarrow> 2 * size x + 1)")
      (auto dest!: size_list_estimation'[where f = size, OF _ order_refl]
        size_list_estimation'[where f = "size_prod (\<lambda>_. 0) size", OF _ order_refl])

text \<open>Insert-if-absent: an original is stored under its digest unless the digest is a key.\<close>

definition record_original :: "pylib \<Rightarrow> mapping \<Rightarrow> json \<Rightarrow> mapping" where
  "record_original L m v =
     (case hash_value L v of
        None \<Rightarrow> m
      | Some h \<Rightarrow> (if map_of m h = None then m @ [(h, v)] else m))"

text \<open>A document as \<^verbatim>\<open>json.loads\<close> builds it: the keys of every dict are distinct.\<close>

function (sequential) distinct_keys :: "json \<Rightarrow> bool" where
  "distinct_keys (JObj kvs) \<longleftrightarrow> distinct (map fst kvs) \<and> list_all (\<lambda>(k, v). distinct_keys v) kvs"
| "distinct_keys (JArr xs) \<longleftrightarrow> list_all distinct_keys xs"
| "distinct_keys data \<longleftrightarrow> True"
  by pat_completeness auto
termination
  by (relation "measure size")
      (auto dest!: size_list_estimation'[where f = size, OF _ order_refl]
        size_list_estimation'[where f = "size_prod (\<lambda>_. 0) size", OF _ order_refl])

text \<open>The invariant of the mapping table: distinct digests, each the digest of its original.\<close>

definition mapping_inv :: "pylib \<Rightarrow> mapping \<Rightarrow> bool" where
  "mapping_inv L m \<longleftrightarrow>
     distinct (map fst m) \<and> list_all (\<lambda>(h, v). hash_value L v = Some h) m"


section \<open>Files\<close>

text \<open>
  The file system maps a path to the text of the file. An exception is a value: the error,
  with the file system and the mapping table as the exception leaves them.
\<close>

datatype error = FileNotFoundError | JSONDecodeError | TypeError

type_synonym fs = "string \<rightharpoonup> string"

text \<open>\<^verbatim>\<open>os.replace(src, dst)\<close>: \<open>dst\<close> gets the content of \<open>src\<close>, and \<open>src\<close> is gone.\<close>

definition os_replace :: "string \<Rightarrow> string \<Rightarrow> fs \<Rightarrow> fs" where
  "os_replace src dst files = (files(dst := files src))(src := None)"

text \<open>
  The loop \<^verbatim>\<open>for line in infile\<close> of \<^verbatim>\<open>process_jsonl_file\<close>, with the text written to
  \<^verbatim>\<open>outfile\<close> and \<^verbatim>\<open>count\<close> so far.
\<close>

fun jsonl_loop ::
  "pylib \<Rightarrow> string list \<Rightarrow> mapping \<Rightarrow> string set \<Rightarrow> string \<Rightarrow> nat
     \<Rightarrow> (error \<times> string \<times> mapping) + (string \<times> nat \<times> mapping)" where
  "jsonl_loop L [] m F outfile count = Inr (outfile, count, m)"
| "jsonl_loop L (line # rest) m F outfile count =
     (if strip L line \<noteq> [] then
        (case loads L line of
           None \<Rightarrow> Inl (JSONDecodeError, outfile, m)
         | Some data \<Rightarrow>
             (case anonymize_dict L data m F of (anonymized_data, m') \<Rightarrow>
                jsonl_loop L rest m' F (outfile @ dumps L anonymized_data @ [CHR 0x0A])
                  (count + 1)))
      else jsonl_loop L rest m F outfile count)"

definition process_jsonl_file ::
  "pylib \<Rightarrow> string \<Rightarrow> mapping \<Rightarrow> string set \<Rightarrow> fs
     \<Rightarrow> (error \<times> fs \<times> mapping) + (nat \<times> fs \<times> mapping)" where
  "process_jsonl_file L file_path m F files =
     (let temp_file = file_path @ ''.tmp'' in
      case files file_path of
        None \<Rightarrow> Inl (FileNotFoundError, files, m)
      | Some text \<Rightarrow>
          (case jsonl_loop L (readlines L text) m F [] 0 of
             Inl (e, written, m') \<Rightarrow> Inl (e, files(temp_file \<mapsto> written), m')
           | Inr (written, count, m') \<Rightarrow>
               Inr (count, os_replace temp_file file_path (files(temp_file \<mapsto> written)), m')))"

definition process_json_file ::
  "pylib \<Rightarrow> string \<Rightarrow> mapping \<Rightarrow> string set \<Rightarrow> fs
     \<Rightarrow> (error \<times> fs \<times> mapping) + (bool \<times> fs \<times> mapping)" where
  "process_json_file L file_path m F files =
     (case files file_path of
        None \<Rightarrow> Inl (FileNotFoundError, files, m)
      | Some text \<Rightarrow>
          (case loads L text of
             None \<Rightarrow> Inl (JSONDecodeError, files, m)
           | Some data \<Rightarrow>
               (let temp_file = file_path @ ''.tmp'';
                    write = (\<lambda>anonymized_data.
                      os_replace temp_file file_path
                        (files(temp_file \<mapsto> dump_indent L anonymized_data)))
                in case data of
                     JArr items \<Rightarrow>
                       (case anonymize_items L items m F of (items', m') \<Rightarrow>
                          Inr (True, write (JArr items'), m'))
                   | JObj _ \<Rightarrow>
                       (case anonymize_dict L data m F of (anonymized_data, m') \<Rightarrow>
                          Inr (True, write anonymized_data, m'))
                   | _ \<Rightarrow> Inr (False, files, m))))"


section \<open>Saving the mapping\<close>

text \<open>
  The reverse mapping is a dict keyed by the originals, so Python's rules for keys apply:
  a list or a dict is unhashable (\<^verbatim>\<open>TypeError\<close>), and two keys are the same key when they
  are equal, where \<^verbatim>\<open>True == 1\<close> and \<^verbatim>\<open>1.0 == 1\<close>.
\<close>

fun py_hashable :: "json \<Rightarrow> bool" where
  "py_hashable (JArr _) = False"
| "py_hashable (JObj _) = False"
| "py_hashable _ = True"

definition float_eq_int :: "pyfloat \<Rightarrow> int \<Rightarrow> bool" where
  "float_eq_int f i =
     (let e = unat (take_bit 11 (drop_bit 52 f));
          t = uint (take_bit 52 f);
          sg = (if bit f 63 then - 1 else 1)
      in if e = 2047 then False
         else if e = 0 then t = 0 \<and> i = 0
         else if 1075 \<le> e then i = sg * (2 ^ 52 + t) * 2 ^ (e - 1075)
         else (2 ^ 52 + t) mod 2 ^ (1075 - e) = 0 \<and> i = sg * ((2 ^ 52 + t) div 2 ^ (1075 - e)))"

definition float_key_eq :: "pyfloat \<Rightarrow> pyfloat \<Rightarrow> bool" where
  "float_key_eq f g \<longleftrightarrow> f = g \<or> (take_bit 63 f = 0 \<and> take_bit 63 g = 0)"

fun py_key_eq :: "json \<Rightarrow> json \<Rightarrow> bool" where
  "py_key_eq JNull JNull = True"
| "py_key_eq (JStr s) (JStr t) = (s = t)"
| "py_key_eq (JBool a) (JBool b) = (a = b)"
| "py_key_eq (JBool a) (JInt j) = ((if a then 1 else 0) = j)"
| "py_key_eq (JInt i) (JBool b) = (i = (if b then 1 else 0))"
| "py_key_eq (JInt i) (JInt j) = (i = j)"
| "py_key_eq (JFloat f) (JFloat g) = float_key_eq f g"
| "py_key_eq (JFloat f) (JInt j) = float_eq_int f j"
| "py_key_eq (JFloat f) (JBool b) = float_eq_int f (if b then 1 else 0)"
| "py_key_eq (JInt i) (JFloat g) = float_eq_int g i"
| "py_key_eq (JBool a) (JFloat g) = float_eq_int g (if a then 1 else 0)"
| "py_key_eq _ _ = False"

text \<open>\<^verbatim>\<open>d[k] = v\<close> and \<^verbatim>\<open>d[k]\<close> on the reverse mapping; an equal key keeps the first key object.\<close>

fun rdict_set :: "(json \<times> string) list \<Rightarrow> json \<Rightarrow> string \<Rightarrow> (json \<times> string) list" where
  "rdict_set [] k v = [(k, v)]"
| "rdict_set ((k', v') # d) k v =
     (if py_key_eq k' k then (k', v) # d else (k', v') # rdict_set d k v)"

fun rdict_get :: "(json \<times> string) list \<Rightarrow> json \<Rightarrow> string option" where
  "rdict_get [] k = None"
| "rdict_get ((k', v') # d) k = (if py_key_eq k' k then Some v' else rdict_get d k)"

text \<open>
  \<^verbatim>\<open>{original: hash_val for hash_val, original in mapping.items()}\<close>, with the dict built
  so far.
\<close>

fun reverse_mapping :: "mapping \<Rightarrow> (json \<times> string) list \<Rightarrow> error + (json \<times> string) list" where
  "reverse_mapping [] acc = Inr acc"
| "reverse_mapping ((hash_val, original) # rest) acc =
     (if py_hashable original then reverse_mapping rest (rdict_set acc original hash_val)
      else Inl TypeError)"

definition build_mapping_data :: "mapping \<Rightarrow> error + mapping_data" where
  "build_mapping_data m =
     (case reverse_mapping m [] of
        Inl e \<Rightarrow> Inl e
      | Inr rev_mapping \<Rightarrow>
          Inr \<lparr>hash_to_original = m, original_to_hash = rev_mapping, total_mappings = length m\<rparr>)"

definition save_mapping :: "pylib \<Rightarrow> mapping \<Rightarrow> string \<Rightarrow> fs \<Rightarrow> error + fs" where
  "save_mapping L m output_file files =
     (case build_mapping_data m of
        Inl e \<Rightarrow> Inl e
      | Inr mapping_data \<Rightarrow> Inr (files(output_file \<mapsto> dump_mapping_data L mapping_data)))"

text \<open>
  The two halves of a mapping document are inverses of each other, and the count is the
  number of entries: \<^verbatim>\<open>original_to_hash[hash_to_original[h]] == h\<close> for every digest, and
  \<^verbatim>\<open>hash_to_original[original_to_hash[o]] == o\<close> for every original.
\<close>

definition mutual_inverses :: "mapping_data \<Rightarrow> bool" where
  "mutual_inverses d \<longleftrightarrow>
     list_all (\<lambda>(h, v). rdict_get (original_to_hash d) v = Some h) (hash_to_original d)
     \<and> list_all (\<lambda>(orig, h). case map_of (hash_to_original d) h of
                                None \<Rightarrow> False
                              | Some v \<Rightarrow> py_key_eq v orig) (original_to_hash d)
     \<and> total_mappings d = length (hash_to_original d)"


section \<open>The run\<close>

text \<open>
  \<^verbatim>\<open>Path(file_path).suffix\<close> on a POSIX path: the last dot of the final component and what
  follows it, unless that dot is the first or the last character of the component.
\<close>

definition path_suffix :: "string \<Rightarrow> string" where
  "path_suffix file_path =
     (let name = rev (takeWhile (\<lambda>c. c \<noteq> CHR ''/'') (rev file_path));
          ext = rev (takeWhile (\<lambda>c. c \<noteq> CHR ''.'') (rev name))
      in if CHR ''.'' \<in> set name \<and> length ext + 1 < length name \<and> ext \<noteq> []
         then CHR ''.'' # ext else [])"

text \<open>\<^verbatim>\<open>sub in s\<close> on strings.\<close>

fun str_contains :: "string \<Rightarrow> string \<Rightarrow> bool" where
  "str_contains sub [] = (sub = [])"
| "str_contains sub (c # cs) = (take (length sub) (c # cs) = sub \<or> str_contains sub cs)"

text \<open>
  The loop over \<^verbatim>\<open>all_files\<close> in \<^verbatim>\<open>main\<close>, with the file system, the mapping and
  \<^verbatim>\<open>total_records\<close>. The messages it prints are left out.
\<close>

fun main_loop ::
  "pylib \<Rightarrow> string set \<Rightarrow> string list \<Rightarrow> fs \<times> mapping \<times> nat
     \<Rightarrow> (error \<times> fs \<times> mapping) + (fs \<times> mapping \<times> nat)" where
  "main_loop L F [] (files, m, total_records) = Inr (files, m, total_records)"
| "main_loop L F (file_path # rest) (files, m, total_records) =
     (let file_ext = path_suffix file_path in
      if file_ext = ''.jsonl'' then
        (case process_jsonl_file L file_path m F files of
           Inl e \<Rightarrow> Inl e
         | Inr (count, files', m') \<Rightarrow> main_loop L F rest (files', m', total_records + count))
      else if file_ext = ''.json'' then
        (if str_contains ''systeminfo'' file_path then
           main_loop L F rest (files, m, total_records)
         else
           (case process_json_file L file_path m F files of
              Inl e \<Rightarrow> Inl e
            | Inr (processed, files', m') \<Rightarrow> main_loop L F rest (files', m', total_records)))
      else main_loop L F rest (files, m, total_records))"

text \<open>
  \<^verbatim>\<open>main\<close>; the three lists are what the three calls of \<^verbatim>\<open>glob.glob\<close> return.
\<close>

definition main ::
  "pylib \<Rightarrow> string list \<Rightarrow> string list \<Rightarrow> string list \<Rightarrow> fs \<Rightarrow> (error \<times> fs) + fs" where
  "main L data_files failed_treatment_files failed_patient_files files =
     (let all_files = data_files @ failed_treatment_files @ failed_patient_files in
      if all_files = [] then Inr files
      else
        (case main_loop L (set FIELDS_TO_ANONYMIZE) all_files (files, [], 0) of
           Inl (e, files', m) \<Rightarrow> Inl (e, files')
         | Inr (files', m, total_records) \<Rightarrow>
             (if m \<noteq> [] then
                (case save_mapping L m ''anonymization_mapping.json'' files' of
                   Inl e \<Rightarrow> Inl (e, files')
                 | Inr files'' \<Rightarrow> Inr files'')
              else Inr files')))"


text \<open>What a run leaves behind, whether the loop ended or an exception stopped it.\<close>

fun files_after :: "(error \<times> fs \<times> mapping) + (fs \<times> mapping \<times> nat) \<Rightarrow> fs" where
  "files_after (Inl (e, files, m)) = files"
| "files_after (Inr (files, m, total_records)) = files"

fun mapping_after :: "(error \<times> fs \<times> mapping) + (fs \<times> mapping \<times> nat) \<Rightarrow> mapping" where
  "mapping_after (Inl (e, files, m)) = m"
| "mapping_after (Inr (files, m, total_records)) = m"

fun records_after :: "(error \<times> fs \<times> mapping) + (fs \<times> mapping \<times> nat) \<Rightarrow> nat option" where
  "records_after (Inl (e, files, m)) = None"
| "records_after (Inr (files, m, total_records)) = Some total_records"


section \<open>A library instance for the examples\<close>

text \<open>
  The examples run the model on concrete files, so they need the library functions as
  concrete functions. \<open>example_lib\<close> is CPython cut down to what the examples use:
  \<open>loads\<close> reads the documents of a table (with JSON white space around them) and fails on
  any other text, \<open>dumps\<close> and \<open>dump_indent\<close> print the documents of their tables, lines end
  at a line feed, and \<open>strip\<close> removes ASCII white space. \<open>str_repr\<close> puts a string between
  single quotes, which is its \<^verbatim>\<open>repr\<close> when it is printable ASCII without quote or backslash.
  No example has a float or writes the mapping file.
\<close>

definition LF :: string where
  "LF = [CHR 0x0A]"

definition example_docs :: "(string \<times> json) list" where
  \<open>example_docs =
     [(''{}'', JObj []),
      (''[]'', JArr []),
      (''42'', JInt 42),
      (''null'', JNull),
      (''{"PatientID": "1"}'', JObj [(''PatientID'', JStr ''1'')]),
      (''{"PatientID": "6b86b273ff34fce19d6b804eff5a3f5747ada4eaa22f1d49c01e52ddb7875b4b"}'',
       JObj [(''PatientID'',
              JStr ''6b86b273ff34fce19d6b804eff5a3f5747ada4eaa22f1d49c01e52ddb7875b4b'')])]\<close>

definition example_indented :: "(string \<times> json) list" where
  \<open>example_indented =
     [(''{}'', JObj []),
      (''[]'', JArr []),
      (''{'' @ LF @ ''  "PatientID": "6b86b273ff34fce19d6b804eff5a3f5747ada4eaa22f1d49c01e52ddb7875b4b"''
         @ LF @ ''}'',
       JObj [(''PatientID'',
              JStr ''6b86b273ff34fce19d6b804eff5a3f5747ada4eaa22f1d49c01e52ddb7875b4b'')])]\<close>

fun split_lines :: "string \<Rightarrow> string \<Rightarrow> string list" where
  "split_lines cur [] = (if cur = [] then [] else [cur])"
| "split_lines cur (c # cs) =
     (if c = CHR 0x0A then (cur @ [c]) # split_lines [] cs else split_lines (cur @ [c]) cs)"

definition ascii_space :: "char \<Rightarrow> bool" where
  "ascii_space c \<longleftrightarrow> c \<in> set [CHR 0x09, CHR 0x0A, CHR 0x0B, CHR 0x0C, CHR 0x0D, CHR 0x1C, CHR 0x1D,
                               CHR 0x1E, CHR 0x1F, CHR 0x20]"

definition ascii_strip :: "string \<Rightarrow> string" where
  "ascii_strip s = rev (dropWhile ascii_space (rev (dropWhile ascii_space s)))"

definition json_space :: "char \<Rightarrow> bool" where
  "json_space c \<longleftrightarrow> c \<in> set [CHR 0x09, CHR 0x0A, CHR 0x0D, CHR 0x20]"

definition example_loads :: "string \<Rightarrow> json option" where
  "example_loads s = map_of example_docs (rev (dropWhile json_space (rev (dropWhile json_space s))))"

definition print_from :: "(string \<times> json) list \<Rightarrow> json \<Rightarrow> string" where
  "print_from table j = (case find (\<lambda>(t, v). v = j) table of Some (t, v) \<Rightarrow> t | None \<Rightarrow> [])"

definition example_lib :: pylib where
  "example_lib =
     \<lparr>float_repr = (\<lambda>_. []), str_repr = (\<lambda>s. CHR 0x27 # s @ [CHR 0x27]), loads = example_loads,
      dumps = print_from example_docs, dump_indent = print_from example_indented,
      dump_mapping_data = (\<lambda>_. []), readlines = split_lines [], strip = ascii_strip\<rparr>"

text \<open>
  Two JSONL files: a record, a blank line and an empty object; and the same with a
  malformed line in the middle.
\<close>

definition example_jsonl :: string where
  \<open>example_jsonl = ''{"PatientID": "1"}'' @ LF @ LF @ ''{}'' @ LF\<close>

definition example_bad_jsonl :: string where
  \<open>example_bad_jsonl = ''{"PatientID": "1"}'' @ LF @ ''{'' @ LF @ ''{}'' @ LF\<close>


section \<open>What the loop over a JSONL file writes\<close>

text \<open>One compact line for each document: the anonymized document, serialized.\<close>

definition jsonl_text :: "pylib \<Rightarrow> string set \<Rightarrow> json list \<Rightarrow> string" where
  "jsonl_text L F docs =
     concat (map (\<lambda>data. dumps L (fst (anonymize_dict L data [] F)) @ [CHR 0x0A]) docs)"


declare spec_field.simps [simp del] sensitive_field.simps [simp del]


section \<open>The shape of a digest\<close>

lemma length_hex: "length (hex n x) = n"
  by (induction n arbitrary: x) simp_all

lemma hexdigit_mod16: "hexdigit (x mod 16) \<in> set ''0123456789abcdef''"
proof -
  have "nat (x mod 16) < length ''0123456789abcdef''"
    by simp
  then show ?thesis
    unfolding hexdigit_def by (rule nth_mem)
qed

lemma set_hex: "set (hex n x) \<subseteq> set ''0123456789abcdef''"
proof (induction n arbitrary: x)
  case 0
  show ?case by simp
next
  case (Suc n)
  from Suc[of "x div 16"] hexdigit_mod16[of x] show ?case
    by simp
qed

lemma length_rounds: "length s = 8 \<Longrightarrow> length (rounds s ks ws) = 8"
  by (induction s ks ws rule: rounds.induct) (simp_all add: Let_def)

lemma length_compress: "length hs = 8 \<Longrightarrow> length (compress hs m) = 8"
  by (simp add: compress_def length_rounds)

lemma length_foldl_compress: "length hs = 8 \<Longrightarrow> length (foldl compress hs bs) = 8"
  by (induction bs arbitrary: hs) (simp_all add: length_compress)

lemma length_sha256_words: "length (sha256_words bs) = 8"
  by (simp add: sha256_words_def length_foldl_compress H256_def)

lemma length_concat_hex: "length (concat (map (hex 8) ws)) = 8 * length ws"
  by (induction ws) (simp_all add: length_hex)

lemma length_sha256_hex: "length (sha256_hex s) = 64"
  by (simp add: sha256_hex_def length_concat_hex length_sha256_words)

lemma set_sha256_hex: "set (sha256_hex s) \<subseteq> set ''0123456789abcdef''"
  unfolding sha256_hex_def using set_hex by (fastforce simp del: hex.simps)

text \<open>The test vector of FIPS 180-4 and the digests the examples need.\<close>

lemma sha256_abc:
  "sha256_hex ''abc'' = ''ba7816bf8f01cfea414140de5dae2223b00361a396177a9cb410ff61f20015ad''"
  by code_simp

lemma sha256_Alice:
  "sha256_hex ''Alice'' = ''3bc51062973c458d5a6f2d8d64a023246354ad7e064b1e4e009ec8a0699a3043''"
  by code_simp

lemma sha256_Alice_twice:
  "sha256_hex ''3bc51062973c458d5a6f2d8d64a023246354ad7e064b1e4e009ec8a0699a3043'' =
     ''150653f51df5e2aa0bda45b6f68ab4fd2c9c5620042baf6124bf5af302780115''"
  by code_simp

lemma sha256_1:
  "sha256_hex ''1'' = ''6b86b273ff34fce19d6b804eff5a3f5747ada4eaa22f1d49c01e52ddb7875b4b''"
  by code_simp

lemma sha256_True:
  "sha256_hex ''True'' = ''3cbc87c7681f34db4617feaa2c8801931bc5e42d8d0f560e756dd4cd92885f18''"
  by code_simp


section \<open>The anonymizer and its specification\<close>

lemma dict_set_fresh: "k \<notin> fst ` set d \<Longrightarrow> dict_set d k v = d @ [(k, v)]"
  by (simp add: dict_set_def)

lemma hash_value_Some: "\<not> is_None v \<Longrightarrow> hash_value L v = Some (sha256_hex (py_str L v))"
  by (simp add: hash_value_def)

lemma record_original_Some:
  "\<not> is_None v \<Longrightarrow>
   record_original L m v =
     (if map_of m (sha256_hex (py_str L v)) = None then m @ [(sha256_hex (py_str L v), v)] else m)"
  by (simp add: record_original_def hash_value_def)

text \<open>
  On a document with distinct keys the loop with its accumulators computes the pure
  transform, and the mapping it returns is the insert-if-absent fold.
\<close>

lemma anonymize_dict_refines:
  "distinct_keys data \<Longrightarrow>
     anonymize_dict L data m F =
       (spec_anonymize L F data, foldl (record_original L) m (sensitive_values F data))"
  and anonymize_loop_refines:
    "distinct (map fst anonymized @ map fst kvs) \<Longrightarrow> list_all (\<lambda>(k, v). distinct_keys v) kvs \<Longrightarrow>
     anonymize_loop L kvs m F anonymized =
       (anonymized @ map (\<lambda>(k, v). (k, spec_field L F k v)) kvs,
        foldl (record_original L) m (concat (map (\<lambda>(k, v). sensitive_field F k v) kvs)))"
  and anonymize_items_refines:
    "list_all distinct_keys xs \<Longrightarrow>
     anonymize_items L xs m F =
       (map (spec_item L F) xs, foldl (record_original L) m (concat (map (sensitive_item F) xs)))"
proof (induction L data m F and L kvs m F anonymized and L xs m F
       rule: anonymize_dict_anonymize_loop_anonymize_items.induct)
  case (4 L key val rest m F anonymized)
  have fresh: "key \<notin> fst ` set anonymized" and
       d': "\<And>x. distinct (map fst (anonymized @ [(key, x)]) @ map fst rest)"
    using "4.prems"(1) by auto
  have wf_val: "distinct_keys val" and wf_rest: "list_all (\<lambda>(k, v). distinct_keys v) rest"
    using "4.prems"(2) by auto
  show ?case
  proof (cases "key \<in> F \<and> \<not> is_None val")
    case True
    then show ?thesis
      using "4.IH"(2) d' wf_rest fresh
      by (simp add: hash_value_Some dict_set_fresh record_original_Some
            spec_field.simps sensitive_field.simps)
  next
    case False
    then show ?thesis
      using "4.IH"(3-) d' wf_rest wf_val fresh
      by (cases val)
         (simp_all add: dict_set_fresh spec_field.simps sensitive_field.simps split: prod.splits)
  qed
next
  case (6 L item rest m F)
  then show ?case by (cases item) (simp_all split: prod.splits)
qed (auto simp: dict_set_fresh)

text \<open>The mapping is that fold on every document, whatever its keys.\<close>

lemma snd_anonymize_dict:
  "snd (anonymize_dict L data m F) = foldl (record_original L) m (sensitive_values F data)"
  and snd_anonymize_loop:
    "snd (anonymize_loop L kvs m F anonymized) =
         foldl (record_original L) m (concat (map (\<lambda>(k, v). sensitive_field F k v) kvs))"
  and snd_anonymize_items:
    "snd (anonymize_items L xs m F) =
         foldl (record_original L) m (concat (map (sensitive_item F) xs))"
proof (induction L data m F and L kvs m F anonymized and L xs m F
       rule: anonymize_dict_anonymize_loop_anonymize_items.induct)
  case (4 L key val rest m F anonymized)
  show ?case
  proof (cases "key \<in> F \<and> \<not> is_None val")
    case True
    then show ?thesis
      using "4.IH"(2) by (simp add: hash_value_Some record_original_Some sensitive_field.simps)
  next
    case False
    then show ?thesis
      using "4.IH"(3-) by (cases val) (auto simp: sensitive_field.simps split: prod.splits)
  qed
next
  case (6 L item rest m F)
  then show ?case by (cases item) (auto split: prod.splits)
qed (auto split: prod.splits)

lemma sensitive_not_None:
  "v \<in> set (sensitive_values F data) \<Longrightarrow> \<not> is_None v"
  and sensitive_field_not_None: "v \<in> set (sensitive_field F k x) \<Longrightarrow> \<not> is_None v"
  and sensitive_item_not_None: "v \<in> set (sensitive_item F y) \<Longrightarrow> \<not> is_None v"
proof (induction F data and F k x and F y
       rule: sensitive_values_sensitive_field_sensitive_item.induct)
  case (3 F k x)
  then show ?case
    by (cases x) (auto simp: sensitive_field.simps split: if_splits)
qed auto


section \<open>Insert-if-absent\<close>

lemma record_original_cases:
  "record_original L m v = m \<or>
   (\<exists>h. hash_value L v = Some h \<and> map_of m h = None \<and> record_original L m v = m @ [(h, v)])"
  by (auto simp: record_original_def split: option.splits)

lemma distinct_record_original:
  "distinct (map fst m) \<Longrightarrow> distinct (map fst (record_original L m v))"
  using record_original_cases[of L m v] by (auto simp: map_of_eq_None_iff)

lemma distinct_foldl_record:
  "distinct (map fst m) \<Longrightarrow> distinct (map fst (foldl (record_original L) m vs))"
  by (induction vs arbitrary: m) (simp_all add: distinct_record_original)

lemma map_of_record_original:
  "map_of m h = Some v \<Longrightarrow> map_of (record_original L m w) h = Some v"
  using record_original_cases[of L m w] by (auto simp: map_add_Some_iff)

lemma map_of_foldl_record_mono:
  "map_of m h = Some v \<Longrightarrow> map_of (foldl (record_original L) m vs) h = Some v"
  by (induction vs arbitrary: m) (simp_all add: map_of_record_original)

lemma mapping_inv_record_original:
  "mapping_inv L m \<Longrightarrow> mapping_inv L (record_original L m v)"
  using record_original_cases[of L m v]
  by (auto simp: mapping_inv_def map_of_eq_None_iff)

lemma mapping_inv_foldl_record:
  "mapping_inv L m \<Longrightarrow> mapping_inv L (foldl (record_original L) m vs)"
  by (induction vs arbitrary: m) (simp_all add: mapping_inv_record_original)

lemma map_of_record_original_eq:
  "map_of (record_original L m v) h =
     (case map_of m h of
        Some u \<Rightarrow> Some u
      | None \<Rightarrow> (if hash_value L v = Some h then Some v else None))"
  by (auto simp: record_original_def map_add_def split: option.splits)

lemma map_of_foldl_record:
  "map_of (foldl (record_original L) m vs) h =
     (case map_of m h of
        Some u \<Rightarrow> Some u
      | None \<Rightarrow> find (\<lambda>w. hash_value L w = Some h) vs)"
proof (induction vs arbitrary: m)
  case Nil
  show ?case by (simp split: option.splits)
next
  case (Cons v vs)
  show ?case
    by (simp add: Cons map_of_record_original_eq split: option.splits)
qed

lemma key_in_foldl_record:
  assumes "v \<in> set vs" and "\<not> is_None v"
  shows "sha256_hex (py_str L v) \<in> fst ` set (foldl (record_original L) m vs)"
proof -
  have "find (\<lambda>w. hash_value L w = Some (sha256_hex (py_str L v))) vs \<noteq> None"
    using assms by (auto simp: find_None_iff hash_value_Some)
  then have "map_of (foldl (record_original L) m vs) (sha256_hex (py_str L v)) \<noteq> None"
    by (simp add: map_of_foldl_record split: option.splits)
  then show ?thesis
    by (simp add: map_of_eq_None_iff)
qed

lemma one_entry_per_key:
  "distinct (map fst xs) \<Longrightarrow> k \<in> fst ` set xs \<Longrightarrow> length (filter (\<lambda>(h, v). h = k) xs) = 1"
proof (induction xs)
  case Nil
  then show ?case by simp
next
  case (Cons x xs)
  show ?case
  proof (cases "fst x = k")
    case True
    with Cons.prems have "k \<notin> fst ` set xs"
      by simp
    then have "filter (\<lambda>(h, v). h = k) xs = []"
      by (force simp: filter_empty_conv)
    with True show ?thesis by (cases x) simp
  next
    case False
    with Cons show ?thesis by (cases x) auto
  qed
qed

text \<open>The invariant of the mapping table holds at the start of a run and the anonymizer keeps it.\<close>

lemma mapping_inv_Nil: "mapping_inv L []"
  by (simp add: mapping_inv_def)

lemma mapping_inv_anonymize_dict:
  "mapping_inv L m \<Longrightarrow> mapping_inv L (snd (anonymize_dict L data m F))"
  unfolding snd_anonymize_dict by (rule mapping_inv_foldl_record)


section \<open>The output does not depend on the mapping\<close>

lemma fst_anonymize_dict_indep:
  "fst (anonymize_dict L data m F) = fst (anonymize_dict L data m0 F)"
  and fst_anonymize_loop_indep:
  "fst (anonymize_loop L kvs m F anonymized) = fst (anonymize_loop L kvs m0 F anonymized)"
  and fst_anonymize_items_indep:
  "fst (anonymize_items L xs m F) = fst (anonymize_items L xs m0 F)"
proof (induction L data m F and L kvs m F anonymized and L xs m F
       arbitrary: m0 and m0 and m0
       rule: anonymize_dict_anonymize_loop_anonymize_items.induct)
  case (1 L kvs m F)
  from 1[of m0] show ?case
    by (cases "anonymize_loop L kvs m F []"; cases "anonymize_loop L kvs m0 F []") simp
next
  case (4 L key val rest m F anonymized)
  show ?case
  proof (cases "key \<in> F \<and> \<not> is_None val")
    case True
    let ?h = "sha256_hex (py_str L val)"
    have hv: "hash_value L val = Some ?h"
      using True by (simp add: hash_value_Some)
    have step: "anonymize_loop L ((key, val) # rest) mm F anonymized =
        anonymize_loop L rest (if map_of mm ?h = None then mm @ [(?h, val)] else mm) F
          (dict_set anonymized key (JStr ?h))" for mm
      using True hv by simp
    show ?thesis
      unfolding step by (rule "4.IH"(2)[OF True hv])
  next
    case False
    show ?thesis
    proof (cases val)
      case (JArr items)
      obtain a m1 where a: "anonymize_items L items m F = (a, m1)"
        by (cases "anonymize_items L items m F")
      obtain b m2 where b: "anonymize_items L items m0 F = (b, m2)"
        by (cases "anonymize_items L items m0 F")
      from "4.IH"(8)[OF False JArr, of m0] a b have ab: "b = a"
        by simp
      have l: "anonymize_loop L ((key, val) # rest) m F anonymized =
          anonymize_loop L rest m1 F (dict_set anonymized key (JArr a))"
        using False JArr a by simp
      have r: "anonymize_loop L ((key, val) # rest) m0 F anonymized =
          anonymize_loop L rest m2 F (dict_set anonymized key (JArr a))"
        using False JArr b ab by simp
      show ?thesis
        unfolding l r by (rule "4.IH"(9)[OF False JArr a[symmetric]])
    next
      case (JObj sub)
      obtain a m1 where a: "anonymize_dict L val m F = (a, m1)"
        by (cases "anonymize_dict L val m F")
      obtain b m2 where b: "anonymize_dict L val m0 F = (b, m2)"
        by (cases "anonymize_dict L val m0 F")
      from "4.IH"(10)[OF False JObj, of m0] a b have ab: "b = a"
        by simp
      have l: "anonymize_loop L ((key, val) # rest) m F anonymized =
          anonymize_loop L rest m1 F (dict_set anonymized key a)"
        using False a unfolding JObj by (simp del: anonymize_dict.simps)
      have r: "anonymize_loop L ((key, val) # rest) m0 F anonymized =
          anonymize_loop L rest m2 F (dict_set anonymized key a)"
        using False b ab unfolding JObj by (simp del: anonymize_dict.simps)
      show ?thesis
        unfolding l r by (rule "4.IH"(11)[OF False JObj a[symmetric]])
    next
      case JNull
      have "anonymize_loop L ((key, val) # rest) mm F anonymized =
          anonymize_loop L rest mm F (dict_set anonymized key val)" for mm
        using False JNull by simp
      then show ?thesis
        using "4.IH"(3)[OF False JNull, of m0] by (simp only:)
    next
      case (JBool x)
      have "anonymize_loop L ((key, val) # rest) mm F anonymized =
          anonymize_loop L rest mm F (dict_set anonymized key val)" for mm
        using False JBool by simp
      then show ?thesis
        using "4.IH"(4)[OF False JBool, of m0] by (simp only:)
    next
      case (JInt x)
      have "anonymize_loop L ((key, val) # rest) mm F anonymized =
          anonymize_loop L rest mm F (dict_set anonymized key val)" for mm
        using False JInt by simp
      then show ?thesis
        using "4.IH"(5)[OF False JInt, of m0] by (simp only:)
    next
      case (JFloat x)
      have "anonymize_loop L ((key, val) # rest) mm F anonymized =
          anonymize_loop L rest mm F (dict_set anonymized key val)" for mm
        using False JFloat by simp
      then show ?thesis
        using "4.IH"(6)[OF False JFloat, of m0] by (simp only:)
    next
      case (JStr x)
      have "anonymize_loop L ((key, val) # rest) mm F anonymized =
          anonymize_loop L rest mm F (dict_set anonymized key val)" for mm
        using False JStr by simp
      then show ?thesis
        using "4.IH"(7)[OF False JStr, of m0] by (simp only:)
    qed
  qed
next
  case (6 L item rest m F)
  show ?case
  proof (cases "is_dict item")
    case True
    then obtain sub where item: "item = JObj sub"
      by (cases item) simp_all
    obtain a m1 where a: "anonymize_dict L item m F = (a, m1)"
      by (cases "anonymize_dict L item m F")
    obtain b m2 where b: "anonymize_dict L item m0 F = (b, m2)"
      by (cases "anonymize_dict L item m0 F")
    from "6.IH"(1)[OF item, of m0] a b have ab: "a = b"
      by simp
    have a': "(a, m1) = (case item of JObj x \<Rightarrow> anonymize_dict L item m F | _ \<Rightarrow> (item, m))"
      using a item by simp
    obtain r m3 where r: "anonymize_items L rest m1 F = (r, m3)"
      by (cases "anonymize_items L rest m1 F")
    obtain r' m4 where r': "anonymize_items L rest m2 F = (r', m4)"
      by (cases "anonymize_items L rest m2 F")
    from "6.IH"(2)[OF a', of m2] r r' have "r = r'"
      by simp
    then show ?thesis
      unfolding item anonymize_items.simps json.case a[unfolded item] b[unfolded item]
        prod.case r r'
      using ab by simp
  next
    case False
    have c: "(case item of JObj x \<Rightarrow> anonymize_dict L item m1 F | _ \<Rightarrow> (item, m1)) = (item, m1)" for m1
      using False by (cases item) simp_all
    obtain r m3 where r: "anonymize_items L rest m F = (r, m3)"
      by (cases "anonymize_items L rest m F")
    obtain r' m4 where r': "anonymize_items L rest m0 F = (r', m4)"
      by (cases "anonymize_items L rest m0 F")
    from "6.IH"(2)[OF c[symmetric], of m0] r r' have "r = r'"
      by simp
    then show ?thesis
      unfolding anonymize_items.simps c prod.case r r' by simp
  qed
qed simp_all

lemma map_of_spec_fields:
  "distinct (map fst kvs) \<Longrightarrow> (k, v) \<in> set kvs \<Longrightarrow>
   map_of (map (\<lambda>(k, v). (k, spec_field L F k v)) kvs) k = Some (spec_field L F k v)"
  by (induction kvs) (auto simp: rev_image_eqI)

lemma concat_map_removeAll:
  "f x = [] \<Longrightarrow> concat (map f (removeAll x xs)) = concat (map f xs)"
  by (induction xs) auto

lemma keys_spec_fields: "map fst (map (\<lambda>(k, v). (k, spec_field L F k v)) kvs) = map fst kvs"
  by (induction kvs) auto

lemma dict_keys_spec_anonymize: "dict_keys (spec_anonymize L F data) = dict_keys data"
  by (cases data) auto


section \<open>The mapping over a whole run\<close>

text \<open>
  Whatever a file holds and however the run ends, the mapping it leaves is the mapping it
  started from with originals recorded by insert-if-absent.
\<close>

lemma foldl_record_nil_ex: "\<exists>vs. m = foldl (record_original L) m vs"
  by (rule exI[of _ "[]"]) simp

lemma jsonl_loop_mapping:
  "\<exists>vs. (case jsonl_loop L lines m F outfile count of
            Inl (e, written, m') \<Rightarrow> m' | Inr (written, n, m') \<Rightarrow> m') =
         foldl (record_original L) m vs"
proof (induction lines arbitrary: m outfile count)
  case Nil
  show ?case using foldl_record_nil_ex[of m L] by simp
next
  case (Cons line rest)
  show ?case
  proof (cases "strip L line \<noteq> []")
    case False
    with Cons show ?thesis by simp
  next
    case True
    show ?thesis
    proof (cases "loads L line")
      case None
      with True show ?thesis using foldl_record_nil_ex[of m L] by simp
    next
      case (Some data)
      obtain a m1 where a: "anonymize_dict L data m F = (a, m1)"
        by (cases "anonymize_dict L data m F")
      then have m1: "m1 = foldl (record_original L) m (sensitive_values F data)"
        using snd_anonymize_dict[of L data m F] by simp
      from Cons[of m1 "outfile @ dumps L a @ [CHR 0x0A]" "count + 1"]
      obtain vs where "(case jsonl_loop L rest m1 F (outfile @ dumps L a @ [CHR 0x0A]) (count + 1) of
            Inl (e, written, m') \<Rightarrow> m' | Inr (written, n, m') \<Rightarrow> m') =
         foldl (record_original L) m1 vs"
        by blast
      then have "(case jsonl_loop L (line # rest) m F outfile count of
            Inl (e, written, m') \<Rightarrow> m' | Inr (written, n, m') \<Rightarrow> m') =
         foldl (record_original L) m (sensitive_values F data @ vs)"
        using True Some a m1 by simp
      then show ?thesis by blast
    qed
  qed
qed

lemma process_jsonl_file_mapping:
  "\<exists>vs. (case process_jsonl_file L file_path m F files of
            Inl (e, files', m') \<Rightarrow> m' | Inr (n, files', m') \<Rightarrow> m') =
         foldl (record_original L) m vs"
proof (cases "files file_path")
  case None
  then show ?thesis
    using foldl_record_nil_ex[of m L] by (simp add: process_jsonl_file_def Let_def)
next
  case (Some contents)
  from jsonl_loop_mapping[of L "readlines L contents" m F "[]" 0]
  obtain vs where "(case jsonl_loop L (readlines L contents) m F [] 0 of
            Inl (e, written, m') \<Rightarrow> m' | Inr (written, n, m') \<Rightarrow> m') =
         foldl (record_original L) m vs"
    by blast
  with Some have "(case process_jsonl_file L file_path m F files of
            Inl (e, files', m') \<Rightarrow> m' | Inr (n, files', m') \<Rightarrow> m') =
         foldl (record_original L) m vs"
    unfolding process_jsonl_file_def by (auto simp: Let_def split: sum.splits)
  then show ?thesis by blast
qed

lemma process_json_file_mapping:
  "\<exists>vs. (case process_json_file L file_path m F files of
            Inl (e, files', m') \<Rightarrow> m' | Inr (b, files', m') \<Rightarrow> m') =
         foldl (record_original L) m vs"
proof -
  note nil = foldl_record_nil_ex[of m L]
  show ?thesis
  proof (cases "files file_path")
    case None
    with nil show ?thesis
      by (simp add: process_json_file_def)
  next
    case (Some contents)
    show ?thesis
    proof (cases "loads L contents")
      case None
      with Some nil show ?thesis
        by (simp add: process_json_file_def)
    next
      case data: (Some data)
      show ?thesis
      proof (cases data)
        case (JArr items)
        have "snd (anonymize_items L items m F) =
            foldl (record_original L) m (concat (map (sensitive_item F) items))"
          by (rule snd_anonymize_items)
        with Some data JArr show ?thesis
          unfolding process_json_file_def by (auto simp: Let_def split: prod.splits)
      next
        case (JObj kvs)
        have "snd (anonymize_dict L (JObj kvs) m F) =
            foldl (record_original L) m (sensitive_values F (JObj kvs))"
          by (rule snd_anonymize_dict)
        with Some data JObj show ?thesis
          unfolding process_json_file_def
          by (auto simp del: anonymize_dict.simps simp: Let_def split: prod.splits)
      qed (use Some data nil in \<open>simp_all add: process_json_file_def Let_def\<close>)
    qed
  qed
qed

lemma main_loop_mapping:
  "\<exists>vs. mapping_after (main_loop L F file_list (files, m, total_records)) =
         foldl (record_original L) m vs"
proof (induction file_list arbitrary: files m total_records)
  case Nil
  show ?case using foldl_record_nil_ex[of m L] by simp
next
  case (Cons file_path rest)
  consider (jsonl) "path_suffix file_path = ''.jsonl''"
    | (skip) "path_suffix file_path \<noteq> ''.jsonl''"
        "path_suffix file_path \<noteq> ''.json'' \<or> str_contains ''systeminfo'' file_path"
    | (json) "path_suffix file_path \<noteq> ''.jsonl''" "path_suffix file_path = ''.json''"
        "\<not> str_contains ''systeminfo'' file_path"
    by blast
  then show ?case
  proof cases
    case jsonl
    from process_jsonl_file_mapping[of L file_path m F files]
    obtain vs where vs: "(case process_jsonl_file L file_path m F files of
            Inl (e, files', m') \<Rightarrow> m' | Inr (n, files', m') \<Rightarrow> m') =
         foldl (record_original L) m vs"
      by blast
    show ?thesis
    proof (cases "process_jsonl_file L file_path m F files")
      case (Inl err)
      with vs jsonl show ?thesis
        by (cases err) (auto simp: Let_def)
    next
      case (Inr res)
      obtain n files' m' where res: "res = (n, files', m')"
        by (cases res)
      from Cons[of files' m' "total_records + n"]
      obtain ws where "mapping_after (main_loop L F rest (files', m', total_records + n)) =
          foldl (record_original L) m' ws"
        by blast
      with vs Inr res jsonl
      have "mapping_after (main_loop L F (file_path # rest) (files, m, total_records)) =
          foldl (record_original L) m (vs @ ws)"
        by (simp add: Let_def)
      then show ?thesis by blast
    qed
  next
    case skip
    with Cons[of files m total_records] show ?thesis
      by (auto simp: Let_def)
  next
    case json
    from process_json_file_mapping[of L file_path m F files]
    obtain vs where vs: "(case process_json_file L file_path m F files of
            Inl (e, files', m') \<Rightarrow> m' | Inr (b, files', m') \<Rightarrow> m') =
         foldl (record_original L) m vs"
      by blast
    show ?thesis
    proof (cases "process_json_file L file_path m F files")
      case (Inl err)
      with vs json show ?thesis
        by (cases err) (auto simp: Let_def)
    next
      case (Inr res)
      obtain b files' m' where res: "res = (b, files', m')"
        by (cases res)
      from Cons[of files' m' total_records]
      obtain ws where "mapping_after (main_loop L F rest (files', m', total_records)) =
          foldl (record_original L) m' ws"
        by blast
      with vs Inr res json
      have "mapping_after (main_loop L F (file_path # rest) (files, m, total_records)) =
          foldl (record_original L) m (vs @ ws)"
        by (simp add: Let_def)
      then show ?thesis by blast
    qed
  qed
qed

lemma mapping_inv_main_loop:
  "mapping_inv L m \<Longrightarrow>
   mapping_inv L (mapping_after (main_loop L F file_list (files, m, total_records)))"
  using main_loop_mapping[of L F file_list files m total_records]
  by (auto simp: mapping_inv_foldl_record)


section \<open>Processing a JSONL file\<close>

lemma jsonl_loop_all_parse:
  "map (loads L) (filter (\<lambda>l. strip L l \<noteq> []) lines) = map Some docs \<Longrightarrow>
   jsonl_loop L lines m F outfile count =
     Inr (outfile @ jsonl_text L F docs, count + length docs,
          foldl (record_original L) m (concat (map (sensitive_values F) docs)))"
proof (induction lines arbitrary: m outfile count docs)
  case Nil
  then show ?case by (simp add: jsonl_text_def)
next
  case (Cons line rest)
  show ?case
  proof (cases "strip L line \<noteq> []")
    case False
    with Cons show ?thesis by simp
  next
    case True
    with Cons.prems obtain data docs' where docs: "docs = data # docs'"
      and data: "loads L line = Some data"
      and rest: "map (loads L) (filter (\<lambda>l. strip L l \<noteq> []) rest) = map Some docs'"
      by (cases docs) auto
    obtain a m1 where a: "anonymize_dict L data m F = (a, m1)"
      by (cases "anonymize_dict L data m F")
    have m1: "m1 = foldl (record_original L) m (sensitive_values F data)"
      using snd_anonymize_dict[of L data m F] a by simp
    have a': "a = fst (anonymize_dict L data [] F)"
      using fst_anonymize_dict_indep[of L data m F "[]"] a by simp
    show ?thesis
      using True data a Cons.IH[OF rest, of m1 "outfile @ dumps L a @ [CHR 0x0A]" "count + 1"]
      by (simp add: docs m1 a' jsonl_text_def)
  qed
qed

lemma jsonl_loop_bad_line:
  "map (loads L) (filter (\<lambda>l. strip L l \<noteq> []) pre) = map Some docs \<Longrightarrow>
   strip L bad \<noteq> [] \<Longrightarrow> loads L bad = None \<Longrightarrow>
   jsonl_loop L (pre @ bad # post) m F outfile count =
     Inl (JSONDecodeError, outfile @ jsonl_text L F docs,
          foldl (record_original L) m (concat (map (sensitive_values F) docs)))"
proof (induction pre arbitrary: m outfile count docs)
  case Nil
  then show ?case by (simp add: jsonl_text_def)
next
  case (Cons line rest)
  show ?case
  proof (cases "strip L line \<noteq> []")
    case False
    with Cons show ?thesis by simp
  next
    case True
    with Cons.prems(1) obtain data docs' where docs: "docs = data # docs'"
      and data: "loads L line = Some data"
      and rest: "map (loads L) (filter (\<lambda>l. strip L l \<noteq> []) rest) = map Some docs'"
      by (cases docs) auto
    obtain a m1 where a: "anonymize_dict L data m F = (a, m1)"
      by (cases "anonymize_dict L data m F")
    have m1: "m1 = foldl (record_original L) m (sensitive_values F data)"
      using snd_anonymize_dict[of L data m F] a by simp
    have a': "a = fst (anonymize_dict L data [] F)"
      using fst_anonymize_dict_indep[of L data m F "[]"] a by simp
    show ?thesis
      using True data a
        Cons.IH[OF rest Cons.prems(2,3), of m1 "outfile @ dumps L a @ [CHR 0x0A]" "count + 1"]
      by (simp add: docs m1 a' jsonl_text_def)
  qed
qed

lemma os_replace_tmp:
  "os_replace (file_path @ ''.tmp'') file_path (files(file_path @ ''.tmp'' \<mapsto> written)) =
     (files(file_path \<mapsto> written))(file_path @ ''.tmp'' := None)"
  by (rule ext) (simp add: os_replace_def)


section \<open>The reverse mapping on string originals\<close>

lemma py_key_eq_str: "is_str k \<Longrightarrow> py_key_eq k' k = (k' = k)"
  by (cases k; cases k') simp_all

lemma rdict_set_str_fresh:
  "is_str k \<Longrightarrow> k \<notin> fst ` set d \<Longrightarrow> rdict_set d k v = d @ [(k, v)]"
  by (induction d) (auto simp: py_key_eq_str)

lemma rdict_get_str: "is_str k \<Longrightarrow> rdict_get d k = map_of d k"
  by (induction d) (auto simp: py_key_eq_str)

lemma reverse_mapping_strings:
  "list_all (\<lambda>(h, v). is_str v) m \<Longrightarrow> distinct (map fst acc @ map snd m) \<Longrightarrow>
   reverse_mapping m acc = Inr (acc @ map (\<lambda>(h, v). (v, h)) m)"
proof (induction m arbitrary: acc)
  case Nil
  show ?case by simp
next
  case (Cons e m)
  obtain h v where e: "e = (h, v)"
    by (cases e)
  from Cons.prems e have v: "is_str v" and fresh: "v \<notin> fst ` set acc"
    and rest: "list_all (\<lambda>(h, v). is_str v) m"
    and d: "distinct (map fst (acc @ [(v, h)]) @ map snd m)"
    by auto
  have hashable: "py_hashable v"
    using v by (cases v) simp_all
  show ?case
    using Cons.IH[OF rest d] hashable
    by (simp add: e rdict_set_str_fresh[OF v fresh])
qed

lemma mapping_inv_distinct_originals:
  assumes "mapping_inv L m"
  shows "distinct (map snd m)"
proof -
  from assms have "map fst m = map (\<lambda>v. the (hash_value L v)) (map snd m)"
    by (induction m) (auto simp: mapping_inv_def)
  moreover from assms have "distinct (map fst m)"
    by (simp add: mapping_inv_def)
  ultimately show ?thesis
    by (metis distinct_map)
qed


section \<open>Unfolding the example library\<close>

lemmas example_defs = example_lib_def example_loads_def example_docs_def example_indented_def
  print_from_def ascii_strip_def ascii_space_def json_space_def LF_def example_jsonl_def
  example_bad_jsonl_def


section \<open>The claims\<close>

text \<open>
  C1, as stated: every non-null sensitive value is replaced by its digest and the original
  is recorded in the mapping under that digest. The second part fails when two originals
  have the same string form: in \<^verbatim>\<open>{"PatientIDx": 1, "PatientID": "1"}\<close> both fields get the
  digest of \<^verbatim>\<open>"1"\<close>, the mapping holds the number 1 under it, and the string \<^verbatim>\<open>"1"\<close> is
  recorded nowhere.
\<close>

theorem original_not_recorded_counterexample:
  "anonymize_dict example_lib (JObj [(''PatientIDx'', JInt 1), (''PatientID'', JStr ''1'')]) []
      (set FIELDS_TO_ANONYMIZE) =
     (JObj [(''PatientIDx'', JStr ''6b86b273ff34fce19d6b804eff5a3f5747ada4eaa22f1d49c01e52ddb7875b4b''),
            (''PatientID'', JStr ''6b86b273ff34fce19d6b804eff5a3f5747ada4eaa22f1d49c01e52ddb7875b4b'')],
      [(''6b86b273ff34fce19d6b804eff5a3f5747ada4eaa22f1d49c01e52ddb7875b4b'', JInt 1)])
   \<and> map_of (snd (anonymize_dict example_lib
          (JObj [(''PatientIDx'', JInt 1), (''PatientID'', JStr ''1'')]) [] (set FIELDS_TO_ANONYMIZE)))
        (sha256_hex (py_str example_lib (JStr ''1''))) \<noteq> Some (JStr ''1'')"
  by (simp add: FIELDS_TO_ANONYMIZE_def hash_value_def dict_set_def str_int_def sha256_1)

text \<open>
  C1, amended: on a document whose dicts have distinct keys, \<open>anonymize_dict\<close> returns the
  transform of the specification (a non-null sensitive value becomes the digest of its
  string form, a dict is anonymized recursively, the dict elements of an array are
  anonymized and its other elements are unchanged, everything else is unchanged), with the
  keys of the input and no others; and the mapping it returns holds, under each digest, the
  original it held before or else the first sensitive original of the document with that
  digest.
\<close>

theorem anonymize_dict_meets_contract:
  assumes "distinct_keys data"
  shows "anonymize_dict L data m F =
           (spec_anonymize L F data, foldl (record_original L) m (sensitive_values F data))
         \<and> dict_keys (spec_anonymize L F data) = dict_keys data
         \<and> (\<forall>h. map_of (snd (anonymize_dict L data m F)) h =
                  (case map_of m h of
                     Some u \<Rightarrow> Some u
                   | None \<Rightarrow> find (\<lambda>w. hash_value L w = Some h) (sensitive_values F data)))"
  using anonymize_dict_refines[OF assms, of L m F]
    map_of_foldl_record[of L m "sensitive_values F data"]
  by (simp del: anonymize_dict.simps add: dict_keys_spec_anonymize)

theorem anonymize_dict_meets_contract_witness:
  "distinct_keys (JObj [(''Patient'', JObj [(''FirstName'', JStr ''Alice''), (''Age'', JInt 5)])])
   \<and> anonymize_dict example_lib
        (JObj [(''Patient'', JObj [(''FirstName'', JStr ''Alice''), (''Age'', JInt 5)])]) []
        (set FIELDS_TO_ANONYMIZE) =
       (JObj [(''Patient'',
               JObj [(''FirstName'',
                      JStr ''3bc51062973c458d5a6f2d8d64a023246354ad7e064b1e4e009ec8a0699a3043''),
                     (''Age'', JInt 5)])],
        [(''3bc51062973c458d5a6f2d8d64a023246354ad7e064b1e4e009ec8a0699a3043'', JStr ''Alice'')])"
  using anonymize_dict_meets_contract[where
      data = "JObj [(''Patient'', JObj [(''FirstName'', JStr ''Alice''), (''Age'', JInt 5)])]"
      and L = example_lib and m = "[]" and F = "set FIELDS_TO_ANONYMIZE"]
  by (simp add: FIELDS_TO_ANONYMIZE_def hash_value_def dict_set_def sha256_Alice)

text \<open>
  C2. The mapping is filled by insert-if-absent. \<open>hash_value\<close> is a function of the value
  alone, so the same original always has the same digest. From a mapping with distinct
  digests, \<open>anonymize_dict\<close> returns a mapping with distinct digests in which every entry it
  started with is unchanged and every sensitive original of the document has exactly one
  entry under its digest; and the mapping a whole run leaves, however the run ends, has
  distinct digests and every entry it started with.
\<close>

theorem mapping_first_write_wins:
  assumes "distinct (map fst m)"
  shows "distinct (map fst (snd (anonymize_dict L data m F)))
         \<and> (\<forall>h v. map_of m h = Some v \<longrightarrow> map_of (snd (anonymize_dict L data m F)) h = Some v)
         \<and> (\<forall>w \<in> set (sensitive_values F data).
               length (filter (\<lambda>(h, v). h = sha256_hex (py_str L w))
                 (snd (anonymize_dict L data m F))) = 1)
         \<and> distinct (map fst (mapping_after (main_loop L F file_list (files, m, total_records))))
         \<and> (\<forall>h v. map_of m h = Some v \<longrightarrow>
               map_of (mapping_after (main_loop L F file_list (files, m, total_records))) h = Some v)"
proof -
  let ?m' = "foldl (record_original L) m (sensitive_values F data)"
  have d: "distinct (map fst ?m')"
    using assms by (rule distinct_foldl_record)
  have one: "length (filter (\<lambda>(h, v). h = sha256_hex (py_str L w)) ?m') = 1"
    if "w \<in> set (sensitive_values F data)" for w
    using that d by (intro one_entry_per_key key_in_foldl_record sensitive_not_None)
  obtain vs where vs: "mapping_after (main_loop L F file_list (files, m, total_records)) =
      foldl (record_original L) m vs"
    using main_loop_mapping by blast
  show ?thesis
    unfolding snd_anonymize_dict vs
    using d one assms by (simp add: map_of_foldl_record_mono distinct_foldl_record)
qed

theorem mapping_first_write_wins_witness:
  "distinct (map fst [(sha256_hex ''1'', JInt 1)])
   \<and> map_of [(sha256_hex ''1'', JInt 1)] (sha256_hex ''1'') = Some (JInt 1)
   \<and> JStr ''1'' \<in> set (sensitive_values (set FIELDS_TO_ANONYMIZE)
         (JObj [(''records'', JArr [JObj [(''PatientID'', JStr ''1'')], JObj [(''PatientID'', JStr ''1'')]])]))
   \<and> snd (anonymize_dict example_lib
         (JObj [(''records'', JArr [JObj [(''PatientID'', JStr ''1'')], JObj [(''PatientID'', JStr ''1'')]])])
         [(sha256_hex ''1'', JInt 1)] (set FIELDS_TO_ANONYMIZE)) = [(sha256_hex ''1'', JInt 1)]
   \<and> length (filter (\<lambda>(h, v). h = sha256_hex (py_str example_lib (JStr ''1'')))
         (snd (anonymize_dict example_lib
           (JObj [(''records'', JArr [JObj [(''PatientID'', JStr ''1'')], JObj [(''PatientID'', JStr ''1'')]])])
           [(sha256_hex ''1'', JInt 1)] (set FIELDS_TO_ANONYMIZE)))) = 1
   \<and> map_of (mapping_after (main_loop example_lib (set FIELDS_TO_ANONYMIZE) [''data_1.jsonl'']
         ([''data_1.jsonl'' \<mapsto> example_jsonl], [(sha256_hex ''1'', JInt 1)], 0)))
       (sha256_hex ''1'') = Some (JInt 1)"
  using mapping_first_write_wins[where m = "[(sha256_hex ''1'', JInt 1)]" and L = example_lib
      and data = "JObj [(''records'', JArr [JObj [(''PatientID'', JStr ''1'')], JObj [(''PatientID'', JStr ''1'')]])]"
      and F = "set FIELDS_TO_ANONYMIZE" and file_list = "[''data_1.jsonl'']"
      and files = "[''data_1.jsonl'' \<mapsto> example_jsonl]" and total_records = 0]
  by (simp add: FIELDS_TO_ANONYMIZE_def hash_value_def dict_set_def sensitive_field.simps)

text \<open>
  C3. \<open>process_jsonl_file\<close> skips blank lines and treats each other line as one document.
  When every non-blank line parses it returns the number of non-blank lines, the file
  holds one line for each document and the temporary file is gone. When a non-blank line
  fails to parse, the error leaves the function, what came after the line has no effect,
  and the original file still has its content.
\<close>

theorem process_jsonl_file_counts_or_aborts:
  assumes "files file_path = Some contents"
  shows "(map (loads L) (filter (\<lambda>l. strip L l \<noteq> []) (readlines L contents)) = map Some docs \<longrightarrow>
            process_jsonl_file L file_path m F files =
              Inr (length (filter (\<lambda>l. strip L l \<noteq> []) (readlines L contents)),
                   (files(file_path \<mapsto> jsonl_text L F docs))(file_path @ ''.tmp'' := None),
                   foldl (record_original L) m (concat (map (sensitive_values F) docs))))
         \<and> (readlines L contents = pre @ bad # post \<and> strip L bad \<noteq> [] \<and> loads L bad = None
              \<and> map (loads L) (filter (\<lambda>l. strip L l \<noteq> []) pre) = map Some docs \<longrightarrow>
            process_jsonl_file L file_path m F files =
              Inl (JSONDecodeError, files(file_path @ ''.tmp'' \<mapsto> jsonl_text L F docs),
                   foldl (record_original L) m (concat (map (sensitive_values F) docs)))
            \<and> (files(file_path @ ''.tmp'' \<mapsto> jsonl_text L F docs)) file_path = Some contents)"
proof (intro conjI impI)
  assume p: "map (loads L) (filter (\<lambda>l. strip L l \<noteq> []) (readlines L contents)) = map Some docs"
  then have "length (filter (\<lambda>l. strip L l \<noteq> []) (readlines L contents)) = length docs"
    using map_eq_imp_length_eq by fastforce
  then show "process_jsonl_file L file_path m F files =
              Inr (length (filter (\<lambda>l. strip L l \<noteq> []) (readlines L contents)),
                   (files(file_path \<mapsto> jsonl_text L F docs))(file_path @ ''.tmp'' := None),
                   foldl (record_original L) m (concat (map (sensitive_values F) docs)))"
    using assms jsonl_loop_all_parse[OF p, of m F "[]" 0]
    by (simp add: process_jsonl_file_def Let_def os_replace_tmp)
next
  assume q: "readlines L contents = pre @ bad # post \<and> strip L bad \<noteq> [] \<and> loads L bad = None
              \<and> map (loads L) (filter (\<lambda>l. strip L l \<noteq> []) pre) = map Some docs"
  then show "process_jsonl_file L file_path m F files =
              Inl (JSONDecodeError, files(file_path @ ''.tmp'' \<mapsto> jsonl_text L F docs),
                   foldl (record_original L) m (concat (map (sensitive_values F) docs)))"
    using assms jsonl_loop_bad_line[of L pre docs bad post m F "[]" 0]
    by (simp add: process_jsonl_file_def Let_def)
next
  show "(files(file_path @ ''.tmp'' \<mapsto> jsonl_text L F docs)) file_path = Some contents"
    using assms by simp
qed

theorem process_jsonl_file_counts_or_aborts_witness:
  \<open>[''data_1.jsonl'' \<mapsto> example_jsonl] ''data_1.jsonl'' = Some example_jsonl
   \<and> map (loads example_lib)
        (filter (\<lambda>l. strip example_lib l \<noteq> []) (readlines example_lib example_jsonl)) =
       map Some [JObj [(''PatientID'', JStr ''1'')], JObj []]
   \<and> process_jsonl_file example_lib ''data_1.jsonl'' [] (set FIELDS_TO_ANONYMIZE)
        [''data_1.jsonl'' \<mapsto> example_jsonl] =
       Inr (2,
            ([''data_1.jsonl'' \<mapsto> example_jsonl]
               (''data_1.jsonl'' \<mapsto>
                  ''{"PatientID": "6b86b273ff34fce19d6b804eff5a3f5747ada4eaa22f1d49c01e52ddb7875b4b"}''
                    @ LF @ ''{}'' @ LF))
              (''data_1.jsonl'' @ ''.tmp'' := None),
            [(''6b86b273ff34fce19d6b804eff5a3f5747ada4eaa22f1d49c01e52ddb7875b4b'', JStr ''1'')])
   \<and> readlines example_lib example_bad_jsonl =
       [''{"PatientID": "1"}'' @ LF] @ (''{'' @ LF) # [''{}'' @ LF]
   \<and> strip example_lib (''{'' @ LF) \<noteq> []
   \<and> loads example_lib (''{'' @ LF) = None
   \<and> process_jsonl_file example_lib ''data_2.jsonl'' [] (set FIELDS_TO_ANONYMIZE)
        [''data_2.jsonl'' \<mapsto> example_bad_jsonl] =
       Inl (JSONDecodeError,
            [''data_2.jsonl'' \<mapsto> example_bad_jsonl]
              (''data_2.jsonl'' @ ''.tmp'' \<mapsto>
                 ''{"PatientID": "6b86b273ff34fce19d6b804eff5a3f5747ada4eaa22f1d49c01e52ddb7875b4b"}''
                   @ LF),
            [(''6b86b273ff34fce19d6b804eff5a3f5747ada4eaa22f1d49c01e52ddb7875b4b'', JStr ''1'')])\<close>
  using process_jsonl_file_counts_or_aborts[where files = "[''data_1.jsonl'' \<mapsto> example_jsonl]"
      and file_path = "''data_1.jsonl''" and contents = example_jsonl and L = example_lib
      and docs = "[JObj [(''PatientID'', JStr ''1'')], JObj []]" and m = "[]"
      and F = "set FIELDS_TO_ANONYMIZE" and pre = "[]" and bad = "[]" and post = "[]"]
    process_jsonl_file_counts_or_aborts[where files = "[''data_2.jsonl'' \<mapsto> example_bad_jsonl]"
      and file_path = "''data_2.jsonl''" and contents = example_bad_jsonl and L = example_lib
      and docs = "[JObj [(''PatientID'', JStr ''1'')]]" and m = "[]"
      and F = "set FIELDS_TO_ANONYMIZE" and pre = \<open>[''{"PatientID": "1"}'' @ LF]\<close>
      and bad = "''{'' @ LF" and post = "[''{}'' @ LF]"]
  by (simp add: example_defs jsonl_text_def FIELDS_TO_ANONYMIZE_def hash_value_def dict_set_def
        record_original_def sensitive_field.simps sha256_1)

text \<open>
  C4, as stated: a discovered file whose name contains \<^verbatim>\<open>systeminfo\<close> is skipped whatever
  its extension. The test sits in the \<^verbatim>\<open>.json\<close> branch only: the file
  \<^verbatim>\<open>data_systeminfo.jsonl\<close> is parsed, rewritten, adds to the mapping and is counted.
\<close>

theorem systeminfo_jsonl_counterexample:
  \<open>str_contains ''systeminfo'' ''data_systeminfo.jsonl''
   \<and> files_after (main_loop example_lib (set FIELDS_TO_ANONYMIZE) [''data_systeminfo.jsonl'']
        ([''data_systeminfo.jsonl'' \<mapsto> example_jsonl], [], 0)) ''data_systeminfo.jsonl'' =
       Some (''{"PatientID": "6b86b273ff34fce19d6b804eff5a3f5747ada4eaa22f1d49c01e52ddb7875b4b"}''
               @ LF @ ''{}'' @ LF)
   \<and> mapping_after (main_loop example_lib (set FIELDS_TO_ANONYMIZE) [''data_systeminfo.jsonl'']
        ([''data_systeminfo.jsonl'' \<mapsto> example_jsonl], [], 0)) =
       [(''6b86b273ff34fce19d6b804eff5a3f5747ada4eaa22f1d49c01e52ddb7875b4b'', JStr ''1'')]
   \<and> records_after (main_loop example_lib (set FIELDS_TO_ANONYMIZE) [''data_systeminfo.jsonl'']
        ([''data_systeminfo.jsonl'' \<mapsto> example_jsonl], [], 0)) = Some 2\<close>
  by (simp add: example_defs path_suffix_def process_jsonl_file_def os_replace_def
        FIELDS_TO_ANONYMIZE_def hash_value_def dict_set_def sha256_1)

text \<open>
  C4, amended: a discovered file with the extension \<^verbatim>\<open>.json\<close> whose name contains
  \<^verbatim>\<open>systeminfo\<close> is skipped before it is opened: the file system, the mapping and the
  record count go on to the next file as they were.
\<close>

theorem systeminfo_json_is_skipped:
  assumes "path_suffix file_path = ''.json''" and "str_contains ''systeminfo'' file_path"
  shows "main_loop L F (file_path # rest) (files, m, total_records) =
           main_loop L F rest (files, m, total_records)
         \<and> main_loop L F [file_path] (files, m, total_records) = Inr (files, m, total_records)"
  using assms by simp

theorem systeminfo_json_is_skipped_witness:
  "path_suffix ''failed_patients_systeminfo.json'' = ''.json''
   \<and> str_contains ''systeminfo'' ''failed_patients_systeminfo.json''
   \<and> main_loop example_lib (set FIELDS_TO_ANONYMIZE) [''failed_patients_systeminfo.json'']
         ([''failed_patients_systeminfo.json'' \<mapsto> ''42''], [], 0) =
       Inr ([''failed_patients_systeminfo.json'' \<mapsto> ''42''], [], 0)"
  using systeminfo_json_is_skipped[where file_path = "''failed_patients_systeminfo.json''"
      and L = example_lib and F = "set FIELDS_TO_ANONYMIZE" and rest = "[]"
      and files = "[''failed_patients_systeminfo.json'' \<mapsto> ''42'']" and m = "[]"
      and total_records = 0]
  by (simp add: path_suffix_def)

text \<open>
  C5. A sensitive field whose value is null keeps its key and the value null; null is not
  hashed, and the mapping is the one the object without that field gives.
\<close>

theorem null_is_preserved:
  assumes "distinct_keys (JObj kvs)" and "(k, JNull) \<in> set kvs" and "k \<in> F"
  shows "hash_value L JNull = None
         \<and> (\<exists>anonymized m'.
               anonymize_dict L (JObj kvs) m F = (JObj anonymized, m')
               \<and> map_of anonymized k = Some JNull
               \<and> m' = snd (anonymize_dict L (JObj (removeAll (k, JNull) kvs)) m F))"
proof -
  from assms(1) have d: "distinct (map fst kvs)"
    by simp
  have "spec_field L F k JNull = JNull"
    by (simp add: spec_field.simps)
  with map_of_spec_fields[OF d assms(2), of L F]
  have "map_of (map (\<lambda>(k, v). (k, spec_field L F k v)) kvs) k = Some JNull"
    by simp
  moreover have "anonymize_dict L (JObj kvs) m F =
      (JObj (map (\<lambda>(k, v). (k, spec_field L F k v)) kvs),
       foldl (record_original L) m (sensitive_values F (JObj kvs)))"
    using anonymize_dict_refines[OF assms(1), of L m F] by simp
  moreover have "sensitive_values F (JObj (removeAll (k, JNull) kvs)) = sensitive_values F (JObj kvs)"
    by (simp add: concat_map_removeAll sensitive_field.simps)
  then have "snd (anonymize_dict L (JObj (removeAll (k, JNull) kvs)) m F) =
      foldl (record_original L) m (sensitive_values F (JObj kvs))"
    by (simp only: snd_anonymize_dict)
  ultimately show ?thesis
    by (simp del: anonymize_dict.simps add: hash_value_def)
qed

theorem null_is_preserved_witness:
  "distinct_keys (JObj [(''FirstName'', JNull), (''LastName'', JStr ''Smith'')])
   \<and> (''FirstName'', JNull) \<in> set [(''FirstName'', JNull), (''LastName'', JStr ''Smith'')]
   \<and> ''FirstName'' \<in> set FIELDS_TO_ANONYMIZE
   \<and> hash_value example_lib JNull = None
   \<and> (\<exists>anonymized m'.
         anonymize_dict example_lib (JObj [(''FirstName'', JNull), (''LastName'', JStr ''Smith'')]) []
           (set FIELDS_TO_ANONYMIZE) = (JObj anonymized, m')
         \<and> map_of anonymized ''FirstName'' = Some JNull
         \<and> m' = snd (anonymize_dict example_lib
                 (JObj (removeAll (''FirstName'', JNull)
                    [(''FirstName'', JNull), (''LastName'', JStr ''Smith'')])) []
                 (set FIELDS_TO_ANONYMIZE)))"
  using null_is_preserved[where kvs = "[(''FirstName'', JNull), (''LastName'', JStr ''Smith'')]"
      and k = "''FirstName''" and F = "set FIELDS_TO_ANONYMIZE" and L = example_lib and m = "[]"]
  by (simp add: FIELDS_TO_ANONYMIZE_def)

text \<open>
  C6. A sensitive key whose value is a dict or a list is a leaf: the value is replaced by
  the digest of its string form and is not walked, so the whole value is what the mapping
  records.
\<close>

theorem field_match_precedes_recursion:
  assumes "distinct_keys (JObj kvs)" and "(k, v) \<in> set kvs" and "k \<in> F"
    and "is_dict v \<or> is_list v"
  shows "(\<exists>anonymized m'.
            anonymize_dict L (JObj kvs) m F = (JObj anonymized, m')
            \<and> map_of anonymized k = Some (JStr (sha256_hex (py_str L v))))
         \<and> anonymize_dict L (JObj [(k, v)]) m F =
             (JObj [(k, JStr (sha256_hex (py_str L v)))],
              if map_of m (sha256_hex (py_str L v)) = None
              then m @ [(sha256_hex (py_str L v), v)] else m)"
proof -
  from assms(4) have nn: "\<not> is_None v"
    by (cases v) simp_all
  from assms(1) have d: "distinct (map fst kvs)"
    by simp
  have "spec_field L F k v = JStr (sha256_hex (py_str L v))"
    using assms(3) nn by (simp add: spec_field.simps)
  with map_of_spec_fields[OF d assms(2), of L F]
  have "map_of (map (\<lambda>(k, v). (k, spec_field L F k v)) kvs) k = Some (JStr (sha256_hex (py_str L v)))"
    by simp
  moreover have "anonymize_dict L (JObj kvs) m F =
      (JObj (map (\<lambda>(k, v). (k, spec_field L F k v)) kvs),
       foldl (record_original L) m (sensitive_values F (JObj kvs)))"
    using anonymize_dict_refines[OF assms(1), of L m F] by simp
  moreover have "anonymize_dict L (JObj [(k, v)]) m F =
             (JObj [(k, JStr (sha256_hex (py_str L v)))],
              if map_of m (sha256_hex (py_str L v)) = None
              then m @ [(sha256_hex (py_str L v), v)] else m)"
    using assms(3) nn by (simp add: hash_value_Some dict_set_def)
  ultimately show ?thesis
    by (simp del: anonymize_dict.simps)
qed

theorem field_match_precedes_recursion_witness:
  "distinct_keys (JObj [(''PatientID'', JObj [(''FirstName'', JStr ''Alice'')])])
   \<and> (''PatientID'', JObj [(''FirstName'', JStr ''Alice'')])
       \<in> set [(''PatientID'', JObj [(''FirstName'', JStr ''Alice'')])]
   \<and> ''PatientID'' \<in> set FIELDS_TO_ANONYMIZE
   \<and> (is_dict (JObj [(''FirstName'', JStr ''Alice'')]) \<or> is_list (JObj [(''FirstName'', JStr ''Alice'')]))
   \<and> anonymize_dict example_lib (JObj [(''PatientID'', JObj [(''FirstName'', JStr ''Alice'')])]) []
         (set FIELDS_TO_ANONYMIZE) =
       (JObj [(''PatientID'', JStr (sha256_hex (py_str example_lib (JObj [(''FirstName'', JStr ''Alice'')]))))],
        [(sha256_hex (py_str example_lib (JObj [(''FirstName'', JStr ''Alice'')])),
          JObj [(''FirstName'', JStr ''Alice'')])])"
  using field_match_precedes_recursion[where kvs = "[(''PatientID'', JObj [(''FirstName'', JStr ''Alice'')])]"
      and k = "''PatientID''" and v = "JObj [(''FirstName'', JStr ''Alice'')]"
      and F = "set FIELDS_TO_ANONYMIZE" and L = example_lib and m = "[]"]
  by (simp add: FIELDS_TO_ANONYMIZE_def)

text \<open>
  C7. A \<^verbatim>\<open>.json\<close> file whose top-level value is neither a list nor a dict is not an error:
  \<open>process_json_file\<close> returns \<open>False\<close> with the file system and the mapping as they were,
  and the loop of \<open>main\<close> goes on with the remaining files.
\<close>

theorem scalar_json_file_is_skipped:
  assumes "files file_path = Some contents" and "loads L contents = Some data"
    and "\<not> is_list data" and "\<not> is_dict data"
  shows "process_json_file L file_path m F files = Inr (False, files, m)
         \<and> (path_suffix file_path = ''.json'' \<and> \<not> str_contains ''systeminfo'' file_path \<longrightarrow>
              main_loop L F (file_path # rest) (files, m, total_records) =
                main_loop L F rest (files, m, total_records))"
proof -
  have "process_json_file L file_path m F files = Inr (False, files, m)"
    using assms by (cases data) (simp_all add: process_json_file_def Let_def)
  then show ?thesis
    by simp
qed

theorem scalar_json_file_is_skipped_witness:
  "[''failed_patients_1.json'' \<mapsto> ''42''] ''failed_patients_1.json'' = Some ''42''
   \<and> loads example_lib ''42'' = Some (JInt 42)
   \<and> \<not> is_list (JInt 42) \<and> \<not> is_dict (JInt 42)
   \<and> path_suffix ''failed_patients_1.json'' = ''.json''
   \<and> \<not> str_contains ''systeminfo'' ''failed_patients_1.json''
   \<and> process_json_file example_lib ''failed_patients_1.json'' [] (set FIELDS_TO_ANONYMIZE)
         [''failed_patients_1.json'' \<mapsto> ''42''] =
       Inr (False, [''failed_patients_1.json'' \<mapsto> ''42''], [])
   \<and> main_loop example_lib (set FIELDS_TO_ANONYMIZE) [''failed_patients_1.json'']
         ([''failed_patients_1.json'' \<mapsto> ''42''], [], 0) =
       Inr ([''failed_patients_1.json'' \<mapsto> ''42''], [], 0)"
  using scalar_json_file_is_skipped[where file_path = "''failed_patients_1.json''"
      and L = example_lib and F = "set FIELDS_TO_ANONYMIZE" and rest = "[]"
      and files = "[''failed_patients_1.json'' \<mapsto> ''42'']" and m = "[]"
      and total_records = 0 and contents = "''42''" and data = "JInt 42"]
  by (simp add: path_suffix_def example_defs)

text \<open>
  C8, as stated: the two halves of the mapping document are exact inverses. The originals
  are stored as they are, not as strings, and the reverse mapping is keyed by them:
  after \<^verbatim>\<open>{"PatientIDx": 1, "PatientID": true}\<close> the document has two digests but one
  original, since \<^verbatim>\<open>True == 1\<close> as a key, and the digest of \<^verbatim>\<open>"1"\<close> does not come back.
\<close>

theorem mapping_halves_counterexample:
  "build_mapping_data
     (snd (anonymize_dict example_lib (JObj [(''PatientIDx'', JInt 1), (''PatientID'', JBool True)])
        [] (set FIELDS_TO_ANONYMIZE))) =
     Inr \<lparr>hash_to_original =
            [(''6b86b273ff34fce19d6b804eff5a3f5747ada4eaa22f1d49c01e52ddb7875b4b'', JInt 1),
             (''3cbc87c7681f34db4617feaa2c8801931bc5e42d8d0f560e756dd4cd92885f18'', JBool True)],
          original_to_hash =
            [(JInt 1, ''3cbc87c7681f34db4617feaa2c8801931bc5e42d8d0f560e756dd4cd92885f18'')],
          total_mappings = 2\<rparr>
   \<and> \<not> mutual_inverses
       \<lparr>hash_to_original =
            [(''6b86b273ff34fce19d6b804eff5a3f5747ada4eaa22f1d49c01e52ddb7875b4b'', JInt 1),
             (''3cbc87c7681f34db4617feaa2c8801931bc5e42d8d0f560e756dd4cd92885f18'', JBool True)],
          original_to_hash =
            [(JInt 1, ''3cbc87c7681f34db4617feaa2c8801931bc5e42d8d0f560e756dd4cd92885f18'')],
          total_mappings = 2\<rparr>"
  by (simp add: FIELDS_TO_ANONYMIZE_def hash_value_def dict_set_def str_int_def
        build_mapping_data_def mutual_inverses_def sha256_1 sha256_True)

text \<open>
  C8, amended: for a mapping as the anonymizer builds it (distinct digests, each the
  digest of its original) in which every original is a string, \<open>save_mapping\<close> has a
  document to write, its \<open>hash_to_original\<close> is the mapping, the two halves are inverses
  of each other and \<open>total_mappings\<close> is the number of entries.
\<close>

theorem mapping_halves_are_inverses:
  assumes "mapping_inv L m" and "list_all (\<lambda>(h, v). is_str v) m"
  shows "\<exists>d. build_mapping_data m = Inr d \<and> hash_to_original d = m \<and> mutual_inverses d"
proof -
  let ?rev = "map (\<lambda>(h, v). (v, h)) m"
  let ?d = "\<lparr>hash_to_original = m, original_to_hash = ?rev, total_mappings = length m\<rparr>"
  have dk: "distinct (map fst m)"
    using assms(1) by (simp add: mapping_inv_def)
  have dv: "distinct (map snd m)"
    using assms(1) by (rule mapping_inv_distinct_originals)
  have rev: "reverse_mapping m [] = Inr ?rev"
    using reverse_mapping_strings[OF assms(2), of "[]"] dv by simp
  have fst_rev: "map fst ?rev = map snd m"
    by (induction m) auto
  have fwd: "rdict_get ?rev v = Some h" if "(h, v) \<in> set m" for h v
  proof -
    from that assms(2) have "is_str v"
      by (auto simp: list_all_iff)
    moreover have "distinct (map fst ?rev)"
      unfolding fst_rev by (rule dv)
    then have "map_of ?rev v = Some h"
      using that by (intro map_of_is_SomeI) force+
    ultimately show ?thesis
      by (simp add: rdict_get_str)
  qed
  have bwd: "map_of m h = Some v \<and> py_key_eq v v" if "(v, h) \<in> set ?rev" for h v
  proof -
    from that have mem: "(h, v) \<in> set m"
      by auto
    with assms(2) have "is_str v"
      by (auto simp: list_all_iff)
    with mem dk show ?thesis
      by (simp add: py_key_eq_str)
  qed
  have "mutual_inverses ?d"
    unfolding mutual_inverses_def list_all_iff
    using fwd bwd by fastforce
  moreover have "build_mapping_data m = Inr ?d"
    by (simp add: build_mapping_data_def rev)
  ultimately show ?thesis
    by simp
qed

theorem mapping_halves_are_inverses_witness:
  "mapping_inv example_lib
     (snd (anonymize_dict example_lib (JObj [(''PatientID'', JStr ''1''), (''FirstName'', JStr ''Alice'')])
        [] (set FIELDS_TO_ANONYMIZE)))
   \<and> list_all (\<lambda>(h, v). is_str v)
     (snd (anonymize_dict example_lib (JObj [(''PatientID'', JStr ''1''), (''FirstName'', JStr ''Alice'')])
        [] (set FIELDS_TO_ANONYMIZE)))
   \<and> build_mapping_data
     (snd (anonymize_dict example_lib (JObj [(''PatientID'', JStr ''1''), (''FirstName'', JStr ''Alice'')])
        [] (set FIELDS_TO_ANONYMIZE))) =
     Inr \<lparr>hash_to_original =
            [(''6b86b273ff34fce19d6b804eff5a3f5747ada4eaa22f1d49c01e52ddb7875b4b'', JStr ''1''),
             (''3bc51062973c458d5a6f2d8d64a023246354ad7e064b1e4e009ec8a0699a3043'', JStr ''Alice'')],
          original_to_hash =
            [(JStr ''1'', ''6b86b273ff34fce19d6b804eff5a3f5747ada4eaa22f1d49c01e52ddb7875b4b''),
             (JStr ''Alice'', ''3bc51062973c458d5a6f2d8d64a023246354ad7e064b1e4e009ec8a0699a3043'')],
          total_mappings = 2\<rparr>
   \<and> mutual_inverses
       \<lparr>hash_to_original =
            [(''6b86b273ff34fce19d6b804eff5a3f5747ada4eaa22f1d49c01e52ddb7875b4b'', JStr ''1''),
             (''3bc51062973c458d5a6f2d8d64a023246354ad7e064b1e4e009ec8a0699a3043'', JStr ''Alice'')],
          original_to_hash =
            [(JStr ''1'', ''6b86b273ff34fce19d6b804eff5a3f5747ada4eaa22f1d49c01e52ddb7875b4b''),
             (JStr ''Alice'', ''3bc51062973c458d5a6f2d8d64a023246354ad7e064b1e4e009ec8a0699a3043'')],
          total_mappings = 2\<rparr>"
  using mapping_halves_are_inverses[where L = example_lib and
      m = "snd (anonymize_dict example_lib
             (JObj [(''PatientID'', JStr ''1''), (''FirstName'', JStr ''Alice'')])
             [] (set FIELDS_TO_ANONYMIZE))"]
  by (simp add: FIELDS_TO_ANONYMIZE_def hash_value_def dict_set_def mapping_inv_def
        build_mapping_data_def mutual_inverses_def sha256_1 sha256_Alice)

text \<open>
  C9. Anonymization is not idempotent: anonymizing \<^verbatim>\<open>{"FirstName": "Alice"}\<close> gives the
  digest of \<^verbatim>\<open>Alice\<close>, and anonymizing the result gives the digest of that digest, which
  is a different value.
\<close>

theorem anonymize_not_idempotent:
  "fst (anonymize_dict L (JObj [(''FirstName'', JStr ''Alice'')]) m (set FIELDS_TO_ANONYMIZE)) =
     JObj [(''FirstName'', JStr ''3bc51062973c458d5a6f2d8d64a023246354ad7e064b1e4e009ec8a0699a3043'')]
   \<and> fst (anonymize_dict L
          (fst (anonymize_dict L (JObj [(''FirstName'', JStr ''Alice'')]) m (set FIELDS_TO_ANONYMIZE)))
          m' (set FIELDS_TO_ANONYMIZE)) =
     JObj [(''FirstName'', JStr ''150653f51df5e2aa0bda45b6f68ab4fd2c9c5620042baf6124bf5af302780115'')]
   \<and> fst (anonymize_dict L
          (fst (anonymize_dict L (JObj [(''FirstName'', JStr ''Alice'')]) m (set FIELDS_TO_ANONYMIZE)))
          m' (set FIELDS_TO_ANONYMIZE)) \<noteq>
       fst (anonymize_dict L (JObj [(''FirstName'', JStr ''Alice'')]) m (set FIELDS_TO_ANONYMIZE))"
  by (simp add: FIELDS_TO_ANONYMIZE_def hash_value_def dict_set_def sha256_Alice sha256_Alice_twice)

text \<open>
  C10. Whatever the type of the original (string, number, boolean, object or array), the
  value the anonymizer puts in place of a non-null sensitive field is a JSON string of 64
  lowercase hexadecimal characters.
\<close>

theorem substituted_value_is_hex_digest:
  assumes "distinct_keys (JObj kvs)" and "(k, v) \<in> set kvs" and "k \<in> F" and "\<not> is_None v"
  shows "\<exists>anonymized m' h.
           anonymize_dict L (JObj kvs) m F = (JObj anonymized, m')
           \<and> map_of anonymized k = Some (JStr h)
           \<and> hash_value L v = Some h
           \<and> length h = 64 \<and> set h \<subseteq> set ''0123456789abcdef''"
proof -
  from assms(1) have d: "distinct (map fst kvs)"
    by simp
  have "map_of (map (\<lambda>(k, v). (k, spec_field L F k v)) kvs) k = Some (spec_field L F k v)"
    using d assms(2) by (induction kvs) (auto simp: rev_image_eqI)
  moreover have "spec_field L F k v = JStr (sha256_hex (py_str L v))"
    using assms(3,4) by (simp add: spec_field.simps)
  moreover have "anonymize_dict L (JObj kvs) m F =
      (JObj (map (\<lambda>(k, v). (k, spec_field L F k v)) kvs),
       foldl (record_original L) m (sensitive_values F (JObj kvs)))"
    using anonymize_dict_refines[OF assms(1), of L m F] by simp
  ultimately show ?thesis
    using assms(4) length_sha256_hex set_sha256_hex by (simp add: hash_value_Some)
qed

theorem substituted_value_is_hex_digest_witness:
  "distinct_keys (JObj [(''PatientIDx'', JInt 7)])
   \<and> (''PatientIDx'', JInt 7) \<in> set [(''PatientIDx'', JInt 7)]
   \<and> ''PatientIDx'' \<in> set FIELDS_TO_ANONYMIZE
   \<and> \<not> is_None (JInt 7)
   \<and> (\<exists>anonymized m' h.
         anonymize_dict example_lib (JObj [(''PatientIDx'', JInt 7)]) [] (set FIELDS_TO_ANONYMIZE) =
           (JObj anonymized, m')
         \<and> map_of anonymized ''PatientIDx'' = Some (JStr h)
         \<and> hash_value example_lib (JInt 7) = Some h
         \<and> length h = 64 \<and> set h \<subseteq> set ''0123456789abcdef'')"
  using substituted_value_is_hex_digest[where kvs = "[(''PatientIDx'', JInt 7)]"
      and k = "''PatientIDx''" and v = "JInt 7" and F = "set FIELDS_TO_ANONYMIZE"
      and L = example_lib and m = "[]"]
  by (simp add: FIELDS_TO_ANONYMIZE_def)

end
